theory Spec2Isabelle
  imports Main "HOL-Library.Word"
begin

section \<open>The capture engine of the crawler (internal/pkg/crawl/capture.go)\<close>

text \<open>
  A shallow embedding of \<^verbatim>\<open>executeGET\<close>, \<^verbatim>\<open>captureAsset\<close>, \<^verbatim>\<open>Capture\<close> and
  \<^verbatim>\<open>deleteTempFile\<close>. The code is effectful Go: every call to a collaborator (HTTP
  client, WARC writer, file system, parser, loggers, counters) is appended to a
  chronological trace of events, and the answer of a collaborator that performs I/O is
  a function of the trace so far, so that two calls with the same argument may answer
  differently. The model follows one task; other goroutines are not part of it.
\<close>

subsection \<open>Data\<close>

datatype error = Error string

text \<open>A \<^verbatim>\<open>*url.URL\<close>, by the two things the code reads from it: \<^verbatim>\<open>String()\<close> and \<^verbatim>\<open>Host\<close>.\<close>

record url =
  url_string :: string
  url_host :: string

text \<open>
  A \<^verbatim>\<open>http.Header\<close>. The code only uses \<^verbatim>\<open>Get\<close> and \<^verbatim>\<open>Set\<close>, which work on the
  canonical form of the key (\<^verbatim>\<open>"location"\<close> is \<^verbatim>\<open>Location\<close>) and on one value per key;
  keys are written in canonical form here.
\<close>

type_synonym header = "(string \<times> string) list"

definition Header_Get :: "header \<Rightarrow> string \<Rightarrow> string" where
  "Header_Get h k = (case map_of h k of None \<Rightarrow> [] | Some v \<Rightarrow> v)"

definition Header_Set :: "string \<Rightarrow> string \<Rightarrow> header \<Rightarrow> header" where
  "Header_Set k v h = (k, v) # filter (\<lambda>p. fst p \<noteq> k) h"

record request =
  Method :: string
  req_URL :: url
  req_Header :: header

text \<open>
  A \<^verbatim>\<open>*http.Cookie\<close>, by the fields \<^verbatim>\<open>Request.AddCookie\<close> reads: name, value, and whether
  the value was given in double quotes.
\<close>

record cookie =
  cookie_Name :: string
  cookie_Value :: string
  cookie_Quoted :: bool

text \<open>
  A \<^verbatim>\<open>*http.Response\<close> whose error is nil: status code, headers, the URL of
  \<^verbatim>\<open>resp.Request\<close>, and the cookies \<^verbatim>\<open>resp.Cookies()\<close> yields.
\<close>

record response =
  StatusCode :: int
  resp_Header :: header
  Request_URL :: url
  Cookies :: "cookie list"

text \<open>
  A \<^verbatim>\<open>frontier.Item\<close>. The types of the fields follow from their uses in capture.go:
  \<^verbatim>\<open>Hop\<close> is compared with \<^verbatim>\<open>MaxHops uint8\<close>, \<^verbatim>\<open>Redirect\<close> with \<^verbatim>\<open>MaxRedirect int\<close>
  (64 bits, two's complement), \<^verbatim>\<open>Hash\<close> is given to \<^verbatim>\<open>strconv.FormatUint\<close>.
  A root item has no parent.
\<close>

datatype item = Item (URL: url) (ParentItem: "item option") (ItemType: string)
  (Hop: "8 word") (Redirect: "64 word") (Hash: "64 word")

definition set_Redirect :: "64 word \<Rightarrow> item \<Rightarrow> item" where
  "set_Redirect r it = Item (URL it) (ParentItem it) (ItemType it) (Hop it) r (Hash it)"

type_synonym document = string

datatype logval = LErr error | LStr string | LInt "64 word" | LHop "8 word"

datatype event =
    EvDo bool request
  | EvWriteWARC response string "error option"
  | EvBodyClose response
  | EvCrawledIncr "64 word"
  | EvQueueCountIncr "64 word"
  | EvSeen string string
  | EvRemove string
  | EvLogWarning "(string \<times> logval) list" string
  | EvLogCrawlSuccess int item
  | EvOpen string
  | EvFileClose string
  | EvNewDocumentFromReader string
  | EvNewDocumentFromResponse response
  | EvExtractOutlinks url document
  | EvGoQueueOutlinks "url list" item
  | EvExtractAssets url document

text \<open>
  \<open>EvDo proxied r\<close>: \<^verbatim>\<open>Do\<close> is called on the proxied or the direct client with the
  request as it is at that moment. \<open>EvWriteWARC resp path err\<close>: \<^verbatim>\<open>writeWARC(resp)\<close>
  and what it returned. \<open>EvRemove path\<close>: \<^verbatim>\<open>os.Remove(path)\<close>.
  \<open>EvGoQueueOutlinks\<close>: the \<^verbatim>\<open>go c.queueOutlinks(outlinks, item)\<close> statement, which
  starts a goroutine and goes on.
\<close>

text \<open>
  A HTTP client: \<^verbatim>\<open>Do(req)\<close> answers a response with a nil error (\<open>Inr\<close>), or an error
  with a response that may be nil (\<open>Inl\<close>).
\<close>

type_synonym client = "event list \<Rightarrow> request \<Rightarrow> (error \<times> response option) + response"

text \<open>The fields of \<^verbatim>\<open>Crawl\<close> that capture.go reads and never writes.\<close>

record crawl =
  Client :: client
  ClientProxied :: "client option"
  BypassProxy :: "string list"
  UserAgent :: string
  MaxHops :: "8 word"
  MaxRedirect :: "64 word"
  Seencheck :: bool
  WARC :: bool

text \<open>
  The collaborators whose code is not in capture.go. Those that perform I/O take the
  trace so far. \<open>NewRequest_URL\<close> is the URL \<^verbatim>\<open>http.NewRequest\<close> gives the request it
  builds from a string, or its error.
\<close>

record env =
  isRedirection :: "int \<Rightarrow> bool"
  StringContainsSliceElements :: "string \<Rightarrow> string list \<Rightarrow> bool"
  url_Parse :: "string \<Rightarrow> error + url"
  NewRequest_URL :: "string \<Rightarrow> error + url"
  hashURL :: "url \<Rightarrow> 64 word"
  writeWARC :: "event list \<Rightarrow> response \<Rightarrow> string \<times> error option"
  os_Remove :: "event list \<Rightarrow> string \<Rightarrow> error option"
  os_Open :: "event list \<Rightarrow> string \<Rightarrow> error option"
  NewDocumentFromReader :: "event list \<Rightarrow> string \<Rightarrow> error + document"
  NewDocumentFromResponse :: "event list \<Rightarrow> response \<Rightarrow> error + document"
  extractOutlinks :: "url \<Rightarrow> document \<Rightarrow> error + url list"
  extractAssets :: "url \<Rightarrow> document \<Rightarrow> error + url list"

text \<open>
  What the code mutates: the trace, the store of \<^verbatim>\<open>http.Request\<close> objects
  (\<^verbatim>\<open>*http.Request\<close> is an address; \<^verbatim>\<open>http.NewRequest\<close> allocates the next one), the
  counters \<^verbatim>\<open>c.Crawled\<close> and \<^verbatim>\<open>c.Frontier.QueueCount\<close> (\<^verbatim>\<open>int64\<close>, added atomically, so
  they wrap), and the seen-set \<^verbatim>\<open>c.Frontier.Seencheck\<close>. \<open>Rate\<close> and
  \<open>ActiveWorkers\<close> are only read, for a log line.
\<close>

record state =
  trace :: "event list"
  reqs :: "nat \<Rightarrow> request"
  next_req :: nat
  Crawled :: "64 word"
  QueueCount :: "64 word"
  seencheck_db :: "string \<rightharpoonup> string"
  Rate :: "64 word"
  ActiveWorkers :: "64 word"

datatype 'a outcome = Panic | Return 'a

subsection \<open>Collaborators and library calls\<close>

definition emit :: "event \<Rightarrow> state \<Rightarrow> state" where
  "emit e s = s\<lparr>trace := trace s @ [e]\<rparr>"

definition logWarning :: "(string \<times> logval) list \<Rightarrow> string \<Rightarrow> state \<Rightarrow> state" where
  "logWarning flds msg s = emit (EvLogWarning flds msg) s"

text \<open>\<^verbatim>\<open>c.Crawled.Incr(v)\<close> and \<^verbatim>\<open>c.Frontier.QueueCount.Incr(v)\<close>.\<close>

definition Crawled_Incr :: "64 word \<Rightarrow> state \<Rightarrow> state" where
  "Crawled_Incr v s = emit (EvCrawledIncr v) (s\<lparr>Crawled := Crawled s + v\<rparr>)"

definition QueueCount_Incr :: "64 word \<Rightarrow> state \<Rightarrow> state" where
  "QueueCount_Incr v s = emit (EvQueueCountIncr v) (s\<lparr>QueueCount := QueueCount s + v\<rparr>)"

text \<open>
  \<^verbatim>\<open>http.NewRequest(method, url, nil)\<close>: a fresh request object with empty headers, or
  an error when the URL does not parse.
\<close>

definition NewRequest :: "env \<Rightarrow> string \<Rightarrow> string \<Rightarrow> state \<Rightarrow> (error + nat) \<times> state" where
  "NewRequest env method u s =
     (case NewRequest_URL env u of
        Inl err \<Rightarrow> (Inl err, s)
      | Inr U \<Rightarrow>
          (Inr (next_req s),
           s\<lparr>reqs := (reqs s)(next_req s := \<lparr>Method = method, req_URL = U, req_Header = []\<rparr>),
             next_req := Suc (next_req s)\<rparr>))"

text \<open>\<^verbatim>\<open>req.Header.Set(k, v)\<close> on the request object at address \<open>req\<close>.\<close>

definition req_Header_Set :: "nat \<Rightarrow> string \<Rightarrow> string \<Rightarrow> state \<Rightarrow> state" where
  "req_Header_Set req k v s =
     s\<lparr>reqs := (reqs s)(req := (reqs s req)\<lparr>req_Header := Header_Set k v (req_Header (reqs s req))\<rparr>)\<rparr>"

text \<open>
  The sanitizers of net/http (cookie.go). In a name, line feed and carriage return
  become \<^verbatim>\<open>-\<close>. In a value, only the bytes from \<^verbatim>\<open>0x20\<close> to \<^verbatim>\<open>0x7e\<close> other than the
  double quote, the semicolon and the backslash are kept; what is left, when not empty,
  is put in double quotes if it has a space or a comma or if the cookie is quoted.
\<close>

definition sanitizeCookieName :: "string \<Rightarrow> string" where
  "sanitizeCookieName n = map (\<lambda>b. if b = CHR 0x0A \<or> b = CHR 0x0D then CHR ''-'' else b) n"

definition validCookieValueByte :: "char \<Rightarrow> bool" where
  "validCookieValueByte b =
     (32 \<le> (of_char b :: nat) \<and> (of_char b :: nat) < 127 \<and>
      b \<noteq> CHR 0x22 \<and> b \<noteq> CHR '';'' \<and> b \<noteq> CHR 0x5C)"

definition sanitizeCookieValue :: "string \<Rightarrow> bool \<Rightarrow> string" where
  "sanitizeCookieValue v quoted =
     (let v' = filter validCookieValueByte v in
      if length v' = 0 then v'
      else if CHR '' '' \<in> set v' \<or> CHR '','' \<in> set v' \<or> quoted then CHR 0x22 # v' @ [CHR 0x22]
      else v')"

text \<open>
  \<^verbatim>\<open>req.AddCookie(c)\<close>: the sanitized \<^verbatim>\<open>name=value\<close> is appended to the \<^verbatim>\<open>Cookie\<close>
  header, after \<^verbatim>\<open>"; "\<close> when the header is not empty.
\<close>

definition AddCookie :: "nat \<Rightarrow> cookie \<Rightarrow> state \<Rightarrow> state" where
  "AddCookie req ck s =
     (let sv = sanitizeCookieName (cookie_Name ck) @ ''='' @
               sanitizeCookieValue (cookie_Value ck) (cookie_Quoted ck);
          cur = Header_Get (req_Header (reqs s req)) ''Cookie''
      in if cur \<noteq> [] then req_Header_Set req ''Cookie'' (cur @ ''; '' @ sv) s
         else req_Header_Set req ''Cookie'' sv s)"

text \<open>
  Modelled from the spec: \<^verbatim>\<open>frontier.NewItem\<close>, the item factory of package frontier,
  which is not among the sources. It "constructs a Capture Item from a URL, parent
  item, type, and hop count"; the redirect count of a new item is zero and its hash
  is computed from the URL.
\<close>

definition NewItem :: "env \<Rightarrow> url \<Rightarrow> item \<Rightarrow> string \<Rightarrow> 8 word \<Rightarrow> item" where
  "NewItem env U parentItem itemType hop =
     Item U (Some parentItem) itemType hop 0 (hashURL env U)"

text \<open>
  Modelled from the spec: the seen-set store of package frontier, "keyed by the item's
  content hash, mapping to its type", with \<^verbatim>\<open>isSeen(key)\<close> and \<^verbatim>\<open>markSeen(key, type)\<close>.
\<close>

definition IsSeen :: "string \<Rightarrow> state \<Rightarrow> bool" where
  "IsSeen hash s = (seencheck_db s hash \<noteq> None)"

definition Seen :: "string \<Rightarrow> string \<Rightarrow> state \<Rightarrow> state" where
  "Seen hash itemType s = emit (EvSeen hash itemType) (s\<lparr>seencheck_db := (seencheck_db s)(hash \<mapsto> itemType)\<rparr>)"

text \<open>
  Modelled from the spec: \<^verbatim>\<open>logCrawlSuccess\<close>, defined in another file of package crawl:
  it records "a capture-success observation (elapsed time, status code, item)". Time is
  not modelled.
\<close>

definition logCrawlSuccess :: "int \<Rightarrow> item \<Rightarrow> state \<Rightarrow> state" where
  "logCrawlSuccess statusCode it s = emit (EvLogCrawlSuccess statusCode it) s"

text \<open>\<^verbatim>\<open>strconv.FormatUint(h, 10)\<close>: the decimal digits of an unsigned number.\<close>

fun decimal :: "nat \<Rightarrow> string" where
  "decimal n = (if n < 10 then [''0123456789'' ! n] else decimal (n div 10) @ [''0123456789'' ! (n mod 10)])"

definition FormatUint :: "64 word \<Rightarrow> string" where
  "FormatUint h = decimal (unat h)"

text \<open>\<^verbatim>\<open>strings.Contains(s, sub)\<close>: \<open>sub\<close> occurs in \<open>s\<close> as a contiguous block.\<close>

fun Contains :: "string \<Rightarrow> string \<Rightarrow> bool" where
  "Contains [] sub = (sub = [])"
| "Contains (c # cs) sub = (take (length sub) (c # cs) = sub \<or> Contains cs sub)"

subsection \<open>deleteTempFile (capture.go, lines 256-266)\<close>

definition deleteTempFile :: "env \<Rightarrow> string \<Rightarrow> state \<Rightarrow> state" where
  "deleteTempFile env path s =
     (if path \<noteq> [] then
        (case os_Remove env (trace s) path of
           Some err \<Rightarrow>
             logWarning [(''error'', LErr err), (''path'', LStr path)] ''Error deleting temporary file''
               (emit (EvRemove path) s)
         | None \<Rightarrow> emit (EvRemove path) s)
      else s)"

subsection \<open>executeGET (capture.go, lines 18-77)\<close>

text \<open>
  Lines 23-44, the exchange of one hop: the request is issued on the direct or on the
  proxied client and, when \<^verbatim>\<open>c.WARC\<close> is set, archived. \<open>Inl\<close> carries the three values
  of an early \<^verbatim>\<open>return resp, respPath, err\<close>; \<open>Inr\<close> the response and its archive path
  with which the function goes on.
\<close>

definition exchange ::
  "env \<Rightarrow> crawl \<Rightarrow> nat \<Rightarrow> state \<Rightarrow>
     ((response option \<times> string \<times> error option) + (response \<times> string)) \<times> state" where
  "exchange env c req s =
     (let r = reqs s req;
          direct = (case ClientProxied c of
                      None \<Rightarrow> True
                    | Some cp \<Rightarrow> StringContainsSliceElements env (url_host (req_URL r)) (BypassProxy c));
          answer = (if direct then Client c (trace s) r
                    else (case ClientProxied c of Some cp \<Rightarrow> cp (trace s) r
                          | None \<Rightarrow> Client c (trace s) r));
          s1 = emit (EvDo (\<not> direct) r) s
      in case answer of
           Inl (err, resp) \<Rightarrow> (Inl (resp, [], Some err), s1)
         | Inr resp \<Rightarrow>
             if WARC c then
               (case writeWARC env (trace s1) resp of
                  (respPath, Some err) \<Rightarrow>
                    (Inl (Some resp, respPath, Some err),
                     emit (EvBodyClose resp) (emit (EvWriteWARC resp respPath (Some err)) s1))
                | (respPath, None) \<Rightarrow>
                    (Inr (resp, respPath),
                     Crawled_Incr 1 (emit (EvWriteWARC resp respPath None) s1)))
             else (Inr (resp, []), s1))"

function executeGET ::
  "env \<Rightarrow> crawl \<Rightarrow> item \<Rightarrow> nat \<Rightarrow> state \<Rightarrow>
     (response option \<times> string \<times> error option) outcome \<times> state" where
  "executeGET env c parentItem req s =
     (case exchange env c req s of
        (Inl ret, s1) \<Rightarrow> (Return ret, s1)
      | (Inr (resp, respPath), s1) \<Rightarrow>
          if isRedirection env (StatusCode resp) then
            if Header_Get (resp_Header resp) ''Location'' = url_string (req_URL (reqs s1 req))
               \<or> MaxRedirect c \<le>s Redirect parentItem
            then (Return (Some resp, respPath, None), s1)
            else
              (case url_Parse env (Header_Get (resp_Header resp) ''Location'') of
                 Inl err \<Rightarrow> (Return (Some resp, respPath, Some err), s1)
               | Inr U \<Rightarrow>
                   let newItem = set_Redirect (Redirect parentItem + 1)
                                   (NewItem env U parentItem (ItemType parentItem) (Hop parentItem))
                   in (case NewRequest env ''GET'' (url_string U) s1 of
                         (Inl err, s2) \<Rightarrow> (Return (Some resp, respPath, Some err), s2)
                       | (Inr newReq, s2) \<Rightarrow>
                           let s3 = req_Header_Set req ''User-Agent'' (UserAgent c) s2
                           in (case ParentItem newItem of
                                 None \<Rightarrow> (Panic, s3)
                               | Some p \<Rightarrow>
                                   let s4 = req_Header_Set req ''Referer'' (url_string (URL p)) s3;
                                       s5 = deleteTempFile env respPath s4
                                   in (case executeGET env c newItem newReq s5 of
                                         (Panic, s6) \<Rightarrow> (Panic, s6)
                                       | (Return (resp', respPath', Some err), s6) \<Rightarrow>
                                           (Return (resp', respPath', Some err), s6)
                                       | (Return (resp', respPath', None), s6) \<Rightarrow>
                                           (Return (resp', respPath', None), s6)))))
          else (Return (Some resp, respPath, None), s1))"
  by pat_completeness auto

text \<open>
  The recursion is bounded by the redirect budget: a hop is followed only while
  \<open>Redirect parentItem\<close> is below \<open>MaxRedirect c\<close> as signed numbers, where adding one
  cannot overflow.
\<close>

termination executeGET
proof (relation "measure (\<lambda>(env, c, parentItem, req, s).
          nat (sint (MaxRedirect c) - sint (Redirect parentItem)))", goal_cases)
  case 1
  show ?case by simp
next
  case (2 env c parentItem req s x y b xa ya ba xb xc yb bb xd x2 xe xf)
  from 2(5) have lt: "sint (Redirect parentItem) < sint (MaxRedirect c)"
    by (simp add: word_sle_eq not_le)
  have "sint (MaxRedirect c) < 2 ^ 63"
    using sint_lt [of "MaxRedirect c"] by simp
  moreover have "- (2 ^ 63) \<le> sint (Redirect parentItem)"
    using sint_ge [of "Redirect parentItem"] by simp
  ultimately have "- (2 ^ 63) \<le> sint (Redirect parentItem) + 1"
    and "sint (Redirect parentItem) + 1 < 2 ^ 63"
    using lt by arith+
  then have "signed_take_bit 63 (sint (Redirect parentItem) + 1) = sint (Redirect parentItem) + 1"
    by (rule signed_take_bit_int_eq_self)
  then have succ: "sint (Redirect parentItem + 1) = sint (Redirect parentItem) + 1"
    by (simp add: sint_word_add)
  have "Redirect xb = Redirect parentItem + 1"
    using 2(7) by (simp add: set_Redirect_def)
  with lt succ show ?case by simp
qed

subsection \<open>captureAsset (capture.go, lines 79-121)\<close>

text \<open>
  The result is the returned \<^verbatim>\<open>error\<close> (\<open>None\<close> is nil). \<^verbatim>\<open>item.ParentItem.URL\<close> of an
  item without parent, and the deferred \<^verbatim>\<open>resp.Body.Close()\<close> of a nil response, are
  nil dereferences: the goroutine panics.
\<close>

definition captureAsset ::
  "env \<Rightarrow> crawl \<Rightarrow> item \<Rightarrow> cookie list \<Rightarrow> state \<Rightarrow> error option outcome \<times> state" where
  "captureAsset env c it cookies s =
     (let hash = FormatUint (Hash it) in
      if Seencheck c \<and> IsSeen hash s then (Return None, s)
      else
        let s0 = (if Seencheck c then Seen hash (ItemType it) s else s) in
        (case NewRequest env ''GET'' (url_string (URL it)) s0 of
           (Inl err, s1) \<Rightarrow> (Return (Some err), s1)
         | (Inr req, s1) \<Rightarrow>
             (case ParentItem it of
                None \<Rightarrow> (Panic, s1)
              | Some p \<Rightarrow>
                  let s2 = req_Header_Set req ''Referer'' (url_string (URL p)) s1;
                      s3 = fold (AddCookie req) cookies s2
                  in (case executeGET env c it req s3 of
                        (Panic, s4) \<Rightarrow> (Panic, s4)
                      | (Return (resp, respPath, Some err), s4) \<Rightarrow>
                          (Return (Some err), deleteTempFile env respPath s4)
                      | (Return (None, respPath, None), s4) \<Rightarrow> (Panic, s4)
                      | (Return (Some resp, respPath, None), s4) \<Rightarrow>
                          (Return None,
                           emit (EvBodyClose resp)
                             (logCrawlSuccess (StatusCode resp) it
                                (deleteTempFile env respPath s4)))))))"

subsection \<open>Capture (capture.go, lines 123-254)\<close>

text \<open>
  Lines 125-149: the request is built, gets its \<^verbatim>\<open>Referer\<close>, and is executed.
  \<open>Return None\<close>: Capture has logged the error and returned. \<open>Return (Some (resp,
  respPath))\<close>: it goes on, with \<^verbatim>\<open>resp.Body.Close()\<close> deferred.
\<close>

definition Capture_fetch ::
  "env \<Rightarrow> crawl \<Rightarrow> item \<Rightarrow> state \<Rightarrow> (response \<times> string) option outcome \<times> state" where
  "Capture_fetch env c it s =
     (case NewRequest env ''GET'' (url_string (URL it)) s of
        (Inl err, s1) \<Rightarrow>
          (Return None, logWarning [(''error'', LErr err)] (url_string (URL it)) s1)
      | (Inr req, s1) \<Rightarrow>
          (case (if 0 < Hop it then
                   (case ParentItem it of
                      None \<Rightarrow> Panic
                    | Some p \<Rightarrow>
                        Return (if 0 < length (url_string (URL p))
                                then req_Header_Set req ''Referer'' (url_string (URL p)) s1
                                else s1))
                 else Return s1) of
             Panic \<Rightarrow> (Panic, s1)
           | Return s2 \<Rightarrow>
               (case executeGET env c it req s2 of
                  (Panic, s3) \<Rightarrow> (Panic, s3)
                | (Return (resp, respPath, Some err), s3) \<Rightarrow>
                    (Return None,
                     deleteTempFile env respPath
                       (logWarning [(''error'', LErr err)] (url_string (URL it)) s3))
                | (Return (None, respPath, None), s3) \<Rightarrow> (Panic, s3)
                | (Return (Some resp, respPath, None), s3) \<Rightarrow>
                    (Return (Some (resp, respPath)), s3))))"

text \<open>
  Lines 170-206: the document is parsed from the temporary file, which is then closed
  and deleted, or from the response when there is no file. \<open>None\<close>: Capture has logged
  the error and returned.
\<close>

definition Capture_document ::
  "env \<Rightarrow> item \<Rightarrow> response \<Rightarrow> string \<Rightarrow> state \<Rightarrow> document option \<times> state" where
  "Capture_document env it resp respPath s =
     (if respPath \<noteq> [] then
        (let s1 = emit (EvOpen respPath) s in
         case os_Open env (trace s) respPath of
           Some err \<Rightarrow>
             (None,
              deleteTempFile env respPath
                (logWarning [(''error'', LErr err), (''url'', LStr (url_string (URL it))),
                             (''path'', LStr respPath)]
                   ''Error opening temporary file for outlinks/assets extraction'' s1))
         | None \<Rightarrow>
             (let s2 = emit (EvNewDocumentFromReader respPath) s1 in
              case NewDocumentFromReader env (trace s1) respPath of
                Inl err \<Rightarrow>
                  (None,
                   deleteTempFile env respPath
                     (logWarning [(''error'', LErr err), (''url'', LStr (url_string (URL it))),
                                  (''path'', LStr respPath)]
                        ''Error opening temporary file for outlinks/assets extraction'' s2))
              | Inr doc \<Rightarrow>
                  (Some doc, deleteTempFile env respPath (emit (EvFileClose respPath) s2))))
      else
        (let s1 = emit (EvNewDocumentFromResponse resp) s in
         case NewDocumentFromResponse env (trace s) resp of
           Inl err \<Rightarrow> (None, logWarning [(''error'', LErr err)] (url_string (URL it)) s1)
         | Inr doc \<Rightarrow> (Some doc, s1)))"

text \<open>Lines 230-253: the loop over the extracted assets.\<close>

fun assetLoop ::
  "env \<Rightarrow> crawl \<Rightarrow> item \<Rightarrow> response \<Rightarrow> url list \<Rightarrow> state \<Rightarrow> unit outcome \<times> state" where
  "assetLoop env c it resp [] s = (Return (), s)"
| "assetLoop env c it resp (asset # assets) s =
     (let s1 = QueueCount_Incr (- 1) s in
      if url_string (URL it) = url_string asset then assetLoop env c it resp assets s1
      else
        let newAsset = NewItem env asset it ''asset'' (Hop it) in
        case captureAsset env c newAsset (Cookies resp) s1 of
          (Panic, s2) \<Rightarrow> (Panic, s2)
        | (Return (Some err), s2) \<Rightarrow>
            assetLoop env c it resp assets
              (logWarning [(''error'', LErr err), (''queued'', LInt (QueueCount s2)),
                           (''crawled'', LInt (Crawled s2)), (''rate'', LInt (Rate s2)),
                           (''active_workers'', LInt (ActiveWorkers s2)),
                           (''parent_hop'', LHop (Hop it)),
                           (''parent_url'', LStr (url_string (URL it))),
                           (''type'', LStr ''asset'')]
                 (url_string asset) s2)
        | (Return None, s2) \<Rightarrow> assetLoop env c it resp assets s2)"

text \<open>
  Lines 208-253: outlinks are extracted and handed to a goroutine when the hop count
  allows it, then the assets are extracted and captured one after the other.
\<close>

definition Capture_expand ::
  "env \<Rightarrow> crawl \<Rightarrow> item \<Rightarrow> response \<Rightarrow> url \<Rightarrow> document \<Rightarrow> state \<Rightarrow> unit outcome \<times> state" where
  "Capture_expand env c it resp base doc s =
     (case (if Hop it < MaxHops c then
              (let s1 = emit (EvExtractOutlinks base doc) s in
               case extractOutlinks env base doc of
                 Inl err \<Rightarrow> Inl (logWarning [(''error'', LErr err)] (url_string (URL it)) s1)
               | Inr outlinks \<Rightarrow> Inr (emit (EvGoQueueOutlinks outlinks it) s1))
            else Inr s) of
        Inl s2 \<Rightarrow> (Return (), s2)
      | Inr s2 \<Rightarrow>
          (let s3 = emit (EvExtractAssets base doc) s2 in
           case extractAssets env base doc of
             Inl err \<Rightarrow> (Return (), logWarning [(''error'', LErr err)] (url_string (URL it)) s3)
           | Inr assets \<Rightarrow>
               assetLoop env c it resp assets
                 (QueueCount_Incr (of_nat (length assets)) s3)))"

text \<open>Lines 151-253: what Capture does with a response that was fetched without error.\<close>

definition Capture_scrape ::
  "env \<Rightarrow> crawl \<Rightarrow> item \<Rightarrow> response \<Rightarrow> string \<Rightarrow> state \<Rightarrow> unit outcome \<times> state" where
  "Capture_scrape env c it resp respPath s =
     (let s1 = logCrawlSuccess (StatusCode resp) it s in
      if Contains (Header_Get (resp_Header resp) ''Content-Type'') ''text/'' = False
      then (Return (), deleteTempFile env respPath s1)
      else
        (case url_Parse env (url_string (Request_URL resp)) of
           Inl err \<Rightarrow>
             (Return (),
              deleteTempFile env respPath
                (logWarning [(''error'', LErr err)] (url_string (URL it)) s1))
         | Inr base \<Rightarrow>
             (case Capture_document env it resp respPath s1 of
                (None, s2) \<Rightarrow> (Return (), s2)
              | (Some doc, s2) \<Rightarrow> Capture_expand env c it resp base doc s2)))"

text \<open>
  The whole of Capture. The deferred \<^verbatim>\<open>resp.Body.Close()\<close> runs when the function
  returns or panics after line 149.
\<close>

definition Capture :: "env \<Rightarrow> crawl \<Rightarrow> item \<Rightarrow> state \<Rightarrow> unit outcome \<times> state" where
  "Capture env c it s =
     (case Capture_fetch env c it s of
        (Panic, s1) \<Rightarrow> (Panic, s1)
      | (Return None, s1) \<Rightarrow> (Return (), s1)
      | (Return (Some (resp, respPath)), s1) \<Rightarrow>
          (case Capture_scrape env c it resp respPath s1 of
             (r, s2) \<Rightarrow> (r, emit (EvBodyClose resp) s2)))"

section \<open>Vocabulary of the properties\<close>

text \<open>The events a call has appended to the trace: \<open>s\<close> is the state before, \<open>s'\<close> after.\<close>

definition events_since :: "state \<Rightarrow> state \<Rightarrow> event list" where
  "events_since s s' = drop (length (trace s)) (trace s')"

text \<open>The events of one call of \<^verbatim>\<open>deleteTempFile\<close> when the trace so far is \<open>t\<close>.\<close>

definition delete_events :: "env \<Rightarrow> event list \<Rightarrow> string \<Rightarrow> event list" where
  "delete_events env t path =
     (if path = [] then []
      else EvRemove path #
           (case os_Remove env t path of
              None \<Rightarrow> []
            | Some err \<Rightarrow> [EvLogWarning [(''error'', LErr err), (''path'', LStr path)]
                            ''Error deleting temporary file'']))"

text \<open>\<open>is_Do\<close>: a request is issued. \<open>fetch_event\<close>: the kinds of events of \<^verbatim>\<open>executeGET\<close>.\<close>

definition is_Do :: "event \<Rightarrow> bool" where
  "is_Do e = (case e of EvDo px r \<Rightarrow> True | _ \<Rightarrow> False)"

definition fetch_event :: "event \<Rightarrow> bool" where
  "fetch_event e =
     (case e of EvDo px r \<Rightarrow> True | EvWriteWARC resp p err \<Rightarrow> True | EvBodyClose resp \<Rightarrow> True
      | EvCrawledIncr v \<Rightarrow> True | EvRemove p \<Rightarrow> True | EvLogWarning fl m \<Rightarrow> True
      | _ \<Rightarrow> False)"

text \<open>
  The temporary files of a trace: \<open>live L t\<close> are the archive paths that \<^verbatim>\<open>writeWARC\<close>
  returned in \<open>t\<close> (or that were in \<open>L\<close>) and on which \<^verbatim>\<open>os.Remove\<close> was not called
  afterwards. \<open>clean L t\<close>: no request is issued in \<open>t\<close> while such a file exists.
\<close>

definition live_step :: "string list \<Rightarrow> event \<Rightarrow> string list" where
  "live_step L e =
     (case e of
        EvWriteWARC resp p err \<Rightarrow> (if p = [] then L else p # L)
      | EvRemove p \<Rightarrow> removeAll p L
      | _ \<Rightarrow> L)"

definition live :: "string list \<Rightarrow> event list \<Rightarrow> string list" where
  "live L t = foldl live_step L t"

fun clean :: "string list \<Rightarrow> event list \<Rightarrow> bool" where
  "clean L [] = True"
| "clean L (e # t) = ((if is_Do e then L = [] else True) \<and> clean (live_step L e) t)"

text \<open>
  The redirect step of \<^verbatim>\<open>executeGET\<close> (lines 47-71) in parts: \<open>follows\<close> is the condition
  under which the hop is followed, \<open>follow_item\<close> the item of the next hop (lines 57-58),
  \<open>follow_state\<close> the state in which the recursive call starts (lines 66-69), given the
  state \<open>s2\<close> after \<^verbatim>\<open>http.NewRequest\<close>.
\<close>

definition follow_item :: "env \<Rightarrow> item \<Rightarrow> url \<Rightarrow> item" where
  "follow_item env parentItem U =
     set_Redirect (Redirect parentItem + 1)
       (NewItem env U parentItem (ItemType parentItem) (Hop parentItem))"

definition follow_state :: "env \<Rightarrow> crawl \<Rightarrow> item \<Rightarrow> nat \<Rightarrow> string \<Rightarrow> state \<Rightarrow> state" where
  "follow_state env c parentItem req respPath s2 =
     deleteTempFile env respPath
       (req_Header_Set req ''Referer'' (url_string (URL parentItem))
          (req_Header_Set req ''User-Agent'' (UserAgent c) s2))"

definition follows :: "env \<Rightarrow> crawl \<Rightarrow> item \<Rightarrow> nat \<Rightarrow> response \<Rightarrow> state \<Rightarrow> bool" where
  "follows env c parentItem req resp s1 =
     (isRedirection env (StatusCode resp) \<and>
      Header_Get (resp_Header resp) ''Location'' \<noteq> url_string (req_URL (reqs s1 req)) \<and>
      \<not> MaxRedirect c \<le>s Redirect parentItem)"

text \<open>
  Kinds of events. \<open>write_ok\<close> and \<open>write_failed\<close>: an archive write that returned a nil
  error, or an error. \<open>asset_event\<close>: what \<^verbatim>\<open>captureAsset\<close> and the asset loop may emit.
  \<open>outlink_event\<close>: outlinks are extracted, or handed to the goroutine.
  \<open>scrape_event\<close>: a document is opened or parsed, or links are extracted from it.
  \<open>queue_incrs\<close>: the amounts added to \<^verbatim>\<open>c.Frontier.QueueCount\<close>, in order.
  \<open>archive_ok t res\<close>: in the events \<open>t\<close> of a call that returned \<open>res\<close>, a failed archive
  write is the last write, is followed by the closing of the body only, and its error
  is the result; and \<^verbatim>\<open>c.Crawled.Incr(1)\<close> is called once per successful write.
\<close>

definition write_ok :: "event \<Rightarrow> bool" where
  "write_ok e = (case e of EvWriteWARC resp p None \<Rightarrow> True | _ \<Rightarrow> False)"

definition write_failed :: "event \<Rightarrow> bool" where
  "write_failed e = (case e of EvWriteWARC resp p (Some err) \<Rightarrow> True | _ \<Rightarrow> False)"

definition is_CrawledIncr :: "event \<Rightarrow> bool" where
  "is_CrawledIncr e = (case e of EvCrawledIncr v \<Rightarrow> True | _ \<Rightarrow> False)"

definition asset_event :: "event \<Rightarrow> bool" where
  "asset_event e =
     (fetch_event e \<or>
      (case e of EvSeen h ty \<Rightarrow> True | EvLogCrawlSuccess n i \<Rightarrow> True
       | EvQueueCountIncr v \<Rightarrow> True | _ \<Rightarrow> False))"

definition outlink_event :: "event \<Rightarrow> bool" where
  "outlink_event e =
     (case e of EvExtractOutlinks b d \<Rightarrow> True | EvGoQueueOutlinks os i \<Rightarrow> True | _ \<Rightarrow> False)"

definition queue_incrs :: "event list \<Rightarrow> 64 word list" where
  "queue_incrs t = concat (map (\<lambda>e. case e of EvQueueCountIncr v \<Rightarrow> [v] | _ \<Rightarrow> []) t)"

definition scrape_event :: "event \<Rightarrow> bool" where
  "scrape_event e =
     (case e of EvOpen p \<Rightarrow> True | EvNewDocumentFromReader p \<Rightarrow> True
      | EvNewDocumentFromResponse resp \<Rightarrow> True | EvExtractOutlinks b d \<Rightarrow> True
      | EvGoQueueOutlinks os i \<Rightarrow> True | EvExtractAssets b d \<Rightarrow> True | _ \<Rightarrow> False)"

definition archive_ok :: "event list \<Rightarrow> (response option \<times> string \<times> error option) outcome \<Rightarrow> bool" where
  "archive_ok t res =
     ((\<forall>r p e. EvWriteWARC r p (Some e) \<in> set t \<longrightarrow>
         (\<exists>a. t = a @ [EvWriteWARC r p (Some e), EvBodyClose r] \<and> filter write_failed a = []) \<and>
         res = Return (Some r, p, Some e)) \<and>
      filter is_CrawledIncr t = replicate (length (filter write_ok t)) (EvCrawledIncr 1))"

subsection \<open>A concrete crawl\<close>

text \<open>
  A small world on which the theorems are instantiated: the page \<^verbatim>\<open>a\<close> answers 301 with
  \<^verbatim>\<open>Location: b\<close>, every other URL answers 200 with \<^verbatim>\<open>text/html\<close>; the archive of a
  response to URL \<^verbatim>\<open>u\<close> is the file \<^verbatim>\<open>wu\<close>; no collaborator fails.
\<close>

definition demo_url :: "string \<Rightarrow> url" where
  "demo_url u = \<lparr>url_string = u, url_host = u\<rparr>"

definition demo_client :: client where
  "demo_client t r =
     (if url_string (req_URL r) = ''a''
      then Inr \<lparr>StatusCode = 301, resp_Header = [(''Location'', ''b'')],
                Request_URL = req_URL r, Cookies = []\<rparr>
      else Inr \<lparr>StatusCode = 200, resp_Header = [(''Content-Type'', ''text/html'')],
                Request_URL = req_URL r, Cookies = []\<rparr>)"

definition demo_env :: env where
  "demo_env =
     \<lparr>isRedirection = (\<lambda>n. n = 300 \<or> n = 301 \<or> n = 302 \<or> n = 307 \<or> n = 308),
      StringContainsSliceElements = (\<lambda>h l. list_ex (Contains h) l),
      url_Parse = (\<lambda>u. Inr (demo_url u)),
      NewRequest_URL = (\<lambda>u. Inr (demo_url u)),
      hashURL = (\<lambda>u. of_nat (length (url_string u))),
      writeWARC = (\<lambda>t r. (''w'' @ url_string (Request_URL r), None)),
      os_Remove = (\<lambda>t p. None),
      os_Open = (\<lambda>t p. None),
      NewDocumentFromReader = (\<lambda>t p. Inr ''doc''),
      NewDocumentFromResponse = (\<lambda>t r. Inr ''doc''),
      extractOutlinks = (\<lambda>b d. Inr [demo_url ''c'']),
      extractAssets = (\<lambda>b d. Inr [demo_url ''b'', demo_url ''d''])\<rparr>"

definition demo_crawl :: crawl where
  "demo_crawl =
     \<lparr>Client = demo_client, ClientProxied = None, BypassProxy = [], UserAgent = ''Zeno'',
      MaxHops = 3, MaxRedirect = 5, Seencheck = True, WARC = True\<rparr>"

definition demo_request :: "string \<Rightarrow> request" where
  "demo_request u = \<lparr>Method = ''GET'', req_URL = demo_url u, req_Header = []\<rparr>"

definition demo_state :: state where
  "demo_state =
     \<lparr>trace = [], reqs = (\<lambda>a. demo_request ''a''), next_req = 1, Crawled = 0, QueueCount = 0,
      seencheck_db = Map.empty, Rate = 0, ActiveWorkers = 0\<rparr>"

definition demo_item :: item where
  "demo_item = Item (demo_url ''a'') None ''seed'' 0 0 0"

definition demo_r301 :: response where
  "demo_r301 = \<lparr>StatusCode = 301, resp_Header = [(''Location'', ''b'')],
                 Request_URL = demo_url ''a'', Cookies = []\<rparr>"

definition demo_r200 :: "string \<Rightarrow> response" where
  "demo_r200 u = \<lparr>StatusCode = 200, resp_Header = [(''Content-Type'', ''text/html'')],
                 Request_URL = demo_url u, Cookies = []\<rparr>"

text \<open>
  Variations: an asset of page \<^verbatim>\<open>a\<close>, the page \<^verbatim>\<open>b\<close> as a seed, a WARC writer whose disk
  is full, a server that answers \<^verbatim>\<open>image/png\<close>, an outlink extractor that fails.
\<close>

definition demo_asset :: item where
  "demo_asset = Item (demo_url ''d'') (Some demo_item) ''asset'' 0 0 1"

definition demo_page :: item where
  "demo_page = Item (demo_url ''b'') None ''seed'' 0 0 0"

definition demo_env_disk_full :: env where
  "demo_env_disk_full = demo_env\<lparr>writeWARC := \<lambda>t r. (''wa'', Some (Error ''disk full''))\<rparr>"

definition demo_crawl_png :: crawl where
  "demo_crawl_png =
     demo_crawl\<lparr>Client := \<lambda>t r. Inr \<lparr>StatusCode = 200, resp_Header = [(''Content-Type'', ''image/png'')],
                                         Request_URL = req_URL r, Cookies = []\<rparr>\<rparr>"

definition demo_png :: response where
  "demo_png = \<lparr>StatusCode = 200, resp_Header = [(''Content-Type'', ''image/png'')],
                Request_URL = demo_url ''b'', Cookies = []\<rparr>"

definition demo_env_no_outlinks :: env where
  "demo_env_no_outlinks = demo_env\<lparr>extractOutlinks := \<lambda>b d. Inl (Error ''bad link'')\<rparr>"

section \<open>The library functions do what the Go ones do\<close>

text \<open>\<open>Contains\<close> is the substring test, \<open>FormatUint\<close> writes decimal digits.\<close>

lemma Contains_iff: "Contains s sub \<longleftrightarrow> (\<exists>a b. s = a @ sub @ b)"
proof (induction s)
  case Nil
  show ?case by auto
next
  case (Cons c cs)
  have "(\<exists>a b. c # cs = a @ sub @ b) \<longleftrightarrow>
        (\<exists>b. c # cs = sub @ b) \<or> (\<exists>a b. cs = a @ sub @ b)"
  proof
    assume "\<exists>a b. c # cs = a @ sub @ b"
    then obtain a b where ab: "c # cs = a @ sub @ b" by blast
    show "(\<exists>b. c # cs = sub @ b) \<or> (\<exists>a b. cs = a @ sub @ b)"
    proof (cases a)
      case Nil
      with ab show ?thesis by auto
    next
      case (Cons x a')
      with ab have "cs = a' @ sub @ b" by simp
      then show ?thesis by blast
    qed
  next
    assume "(\<exists>b. c # cs = sub @ b) \<or> (\<exists>a b. cs = a @ sub @ b)"
    then show "\<exists>a b. c # cs = a @ sub @ b"
    proof
      assume "\<exists>b. c # cs = sub @ b"
      then obtain b where "c # cs = [] @ sub @ b" by auto
      then show ?thesis by blast
    next
      assume "\<exists>a b. cs = a @ sub @ b"
      then obtain a b where "c # cs = (c # a) @ sub @ b" by auto
      then show ?thesis by blast
    qed
  qed
  moreover have "(\<exists>b. c # cs = sub @ b) \<longleftrightarrow> take (length sub) (c # cs) = sub"
  proof
    assume "\<exists>b. c # cs = sub @ b"
    then obtain b where "c # cs = sub @ b" by blast
    then show "take (length sub) (c # cs) = sub" by (simp only: take_all append_eq_conv_conj) simp
  next
    assume "take (length sub) (c # cs) = sub"
    then have "c # cs = sub @ drop (length sub) (c # cs)"
      using append_take_drop_id [of "length sub" "c # cs"] by simp
    then show "\<exists>b. c # cs = sub @ b" by blast
  qed
  ultimately show ?case using Cons.IH by simp
qed

lemma AddCookie_examples:
  "sanitizeCookieValue ''a b'' False = [CHR 0x22, CHR ''a'', CHR '' '', CHR ''b'', CHR 0x22]"
  "sanitizeCookieValue ''a;b'' False = ''ab''"
  "sanitizeCookieValue ''ab'' True = [CHR 0x22, CHR ''a'', CHR ''b'', CHR 0x22]"
  "sanitizeCookieName [CHR ''a'', CHR 0x0A, CHR ''b''] = ''a-b''"
  "req_Header (reqs (AddCookie 0 \<lparr>cookie_Name = ''k'', cookie_Value = ''v'', cookie_Quoted = False\<rparr>
     (AddCookie 0 \<lparr>cookie_Name = ''s'', cookie_Value = ''1,2'', cookie_Quoted = False\<rparr>
        demo_state)) 0) =
   [(''Cookie'', [CHR ''s'', CHR ''='', CHR 0x22, CHR ''1'', CHR '','', CHR ''2'', CHR 0x22] @ ''; k=v'')]"
  by (simp_all add: sanitizeCookieValue_def sanitizeCookieName_def validCookieValueByte_def
      AddCookie_def req_Header_Set_def Header_Get_def Header_Set_def Let_def demo_state_def
      demo_request_def)

lemma FormatUint_examples:
  "FormatUint 0 = ''0''" "FormatUint 7 = ''7''" "FormatUint 1234 = ''1234''"
  by (simp_all add: FormatUint_def)

section \<open>executeGET, one hop at a time\<close>

declare executeGET.simps [simp del]

lemma executeGET_early:
  "exchange env c req s = (Inl ret, s1) \<Longrightarrow> executeGET env c it req s = (Return ret, s1)"
  by (subst executeGET.simps) simp

lemma executeGET_final:
  "exchange env c req s = (Inr (resp, p), s1) \<Longrightarrow> \<not> follows env c it req resp s1 \<Longrightarrow>
   executeGET env c it req s = (Return (Some resp, p, None), s1)"
  by (subst executeGET.simps) (auto simp: follows_def)

lemma executeGET_parse_error:
  "exchange env c req s = (Inr (resp, p), s1) \<Longrightarrow> follows env c it req resp s1 \<Longrightarrow>
   url_Parse env (Header_Get (resp_Header resp) ''Location'') = Inl err \<Longrightarrow>
   executeGET env c it req s = (Return (Some resp, p, Some err), s1)"
  by (subst executeGET.simps) (auto simp: follows_def)

lemma executeGET_request_error:
  "exchange env c req s = (Inr (resp, p), s1) \<Longrightarrow> follows env c it req resp s1 \<Longrightarrow>
   url_Parse env (Header_Get (resp_Header resp) ''Location'') = Inr U \<Longrightarrow>
   NewRequest env ''GET'' (url_string U) s1 = (Inl err, s2) \<Longrightarrow>
   executeGET env c it req s = (Return (Some resp, p, Some err), s2)"
  by (subst executeGET.simps) (auto simp: follows_def)

lemma executeGET_follow:
  "exchange env c req s = (Inr (resp, p), s1) \<Longrightarrow> follows env c it req resp s1 \<Longrightarrow>
   url_Parse env (Header_Get (resp_Header resp) ''Location'') = Inr U \<Longrightarrow>
   NewRequest env ''GET'' (url_string U) s1 = (Inr newReq, s2) \<Longrightarrow>
   executeGET env c it req s =
     executeGET env c (follow_item env it U) newReq (follow_state env c it req p s2)"
  apply (subst executeGET.simps)
  apply (auto simp: follows_def follow_item_def follow_state_def Let_def set_Redirect_def NewItem_def
      split: prod.splits outcome.splits option.splits)
  done

lemma executeGET_cases_induct [case_names early final parse_error request_error follow]:
  assumes "\<And>it req s ret s1. exchange env c req s = (Inl ret, s1) \<Longrightarrow> P it req s (Return ret, s1)"
    and "\<And>it req s resp p s1. exchange env c req s = (Inr (resp, p), s1) \<Longrightarrow>
           \<not> follows env c it req resp s1 \<Longrightarrow> P it req s (Return (Some resp, p, None), s1)"
    and "\<And>it req s resp p s1 err. exchange env c req s = (Inr (resp, p), s1) \<Longrightarrow>
           follows env c it req resp s1 \<Longrightarrow>
           url_Parse env (Header_Get (resp_Header resp) ''Location'') = Inl err \<Longrightarrow>
           P it req s (Return (Some resp, p, Some err), s1)"
    and "\<And>it req s resp p s1 U err s2. exchange env c req s = (Inr (resp, p), s1) \<Longrightarrow>
           follows env c it req resp s1 \<Longrightarrow>
           url_Parse env (Header_Get (resp_Header resp) ''Location'') = Inr U \<Longrightarrow>
           NewRequest env ''GET'' (url_string U) s1 = (Inl err, s2) \<Longrightarrow>
           P it req s (Return (Some resp, p, Some err), s2)"
    and "\<And>it req s resp p s1 U newReq s2. exchange env c req s = (Inr (resp, p), s1) \<Longrightarrow>
           follows env c it req resp s1 \<Longrightarrow>
           url_Parse env (Header_Get (resp_Header resp) ''Location'') = Inr U \<Longrightarrow>
           NewRequest env ''GET'' (url_string U) s1 = (Inr newReq, s2) \<Longrightarrow>
           P (follow_item env it U) newReq (follow_state env c it req p s2)
             (executeGET env c (follow_item env it U) newReq (follow_state env c it req p s2)) \<Longrightarrow>
           P it req s (executeGET env c (follow_item env it U) newReq (follow_state env c it req p s2))"
  shows "P it req s (executeGET env c it req s)"
proof -
  have "env' = env \<Longrightarrow> c' = c \<Longrightarrow> P it req s (executeGET env' c' it req s)" for env' c'
  proof (induction env' c' it req s rule: executeGET.induct)
    case (1 env' c' it req s)
    note [simp] = \<open>env' = env\<close> \<open>c' = c\<close>
    obtain r s1 where ex: "exchange env c req s = (r, s1)" by (cases "exchange env c req s")
    show ?case
    proof (cases r)
      case (Inl ret)
      with ex assms(1) show ?thesis by (simp add: executeGET_early)
    next
      case (Inr b)
      obtain resp p where b: "b = (resp, p)" by (cases b)
      note ex' = ex [unfolded Inr b]
      show ?thesis
      proof (cases "follows env c it req resp s1")
        case False
        with ex' assms(2) show ?thesis by (simp add: executeGET_final)
      next
        case fo: True
        show ?thesis
        proof (cases "url_Parse env (Header_Get (resp_Header resp) ''Location'')")
          case (Inl err)
          with ex' fo assms(3) show ?thesis by (simp add: executeGET_parse_error)
        next
          case U: (Inr U)
          obtain q s2 where nr: "NewRequest env ''GET'' (url_string U) s1 = (q, s2)"
            by (cases "NewRequest env ''GET'' (url_string U) s1")
          show ?thesis
          proof (cases q)
            case (Inl err)
            with ex' fo U nr assms(4) show ?thesis by (simp add: executeGET_request_error)
          next
            case (Inr newReq)
            note nr' = nr [unfolded Inr]
            have "P (follow_item env it U) newReq (follow_state env c it req p s2)
                    (executeGET env' c' (follow_item env it U) newReq (follow_state env c it req p s2))"
              using ex' fo U nr'
              by (intro "1.IH" [of "Inr (resp, p)" s1 "(resp, p)" resp p U "follow_item env it U"
                    "Inr newReq" s2 newReq "req_Header_Set req ''User-Agent'' (UserAgent c) s2" it
                    "req_Header_Set req ''Referer'' (url_string (URL it))
                       (req_Header_Set req ''User-Agent'' (UserAgent c) s2)"])
                 (simp_all add: follows_def follow_item_def follow_state_def set_Redirect_def NewItem_def)
            then show ?thesis
              using assms(5) [OF ex' fo U nr'] executeGET_follow [OF ex' fo U nr'] by simp
          qed
        qed
      qed
    qed
  qed
  then show ?thesis by simp
qed

section \<open>What the primitive steps change\<close>

lemma emit_fields [simp]:
  "trace (emit e s) = trace s @ [e]" "reqs (emit e s) = reqs s" "next_req (emit e s) = next_req s"
  "Crawled (emit e s) = Crawled s" "QueueCount (emit e s) = QueueCount s"
  "seencheck_db (emit e s) = seencheck_db s" "Rate (emit e s) = Rate s"
  "ActiveWorkers (emit e s) = ActiveWorkers s"
  by (simp_all add: emit_def)

lemma req_Header_Set_fields [simp]:
  "trace (req_Header_Set a k v s) = trace s" "next_req (req_Header_Set a k v s) = next_req s"
  "Crawled (req_Header_Set a k v s) = Crawled s" "QueueCount (req_Header_Set a k v s) = QueueCount s"
  "seencheck_db (req_Header_Set a k v s) = seencheck_db s"
  by (simp_all add: req_Header_Set_def)

lemma deleteTempFile_fields [simp]:
  "trace (deleteTempFile env p s) = trace s @ delete_events env (trace s) p"
  "reqs (deleteTempFile env p s) = reqs s" "next_req (deleteTempFile env p s) = next_req s"
  "Crawled (deleteTempFile env p s) = Crawled s" "QueueCount (deleteTempFile env p s) = QueueCount s"
  "seencheck_db (deleteTempFile env p s) = seencheck_db s"
  by (simp_all add: deleteTempFile_def delete_events_def logWarning_def split: option.splits)

lemma NewRequest_fields:
  assumes "NewRequest env m u s = (r, s2)"
  shows "trace s2 = trace s" "Crawled s2 = Crawled s" "QueueCount s2 = QueueCount s"
    "seencheck_db s2 = seencheck_db s"
  using assms by (auto simp: NewRequest_def split: sum.splits)

lemma follow_state_fields [simp]:
  "trace (follow_state env c it req p s2) = trace s2 @ delete_events env (trace s2) p"
  "Crawled (follow_state env c it req p s2) = Crawled s2"
  "QueueCount (follow_state env c it req p s2) = QueueCount s2"
  "seencheck_db (follow_state env c it req p s2) = seencheck_db s2"
  by (simp_all add: follow_state_def)

lemma exchange_Inr:
  assumes "exchange env c req s = (Inr (resp, p), s1)"
  shows "\<exists>px. trace s1 = trace s @ EvDo px (reqs s req) #
                  (if WARC c then [EvWriteWARC resp p None, EvCrawledIncr 1] else [])"
    and "\<not> WARC c \<Longrightarrow> p = []"
    and "reqs s1 = reqs s" and "next_req s1 = next_req s"
    and "Crawled s1 = (if WARC c then Crawled s + 1 else Crawled s)"
    and "QueueCount s1 = QueueCount s" and "seencheck_db s1 = seencheck_db s"
  using assms
  by (auto simp: exchange_def Let_def Crawled_Incr_def split: sum.splits prod.splits option.splits if_splits)

lemma exchange_Inl:
  assumes "exchange env c req s = (Inl ret, s1)"
  shows "\<exists>px e. (\<exists>r. ret = (r, [], Some e) \<and> trace s1 = trace s @ [EvDo px (reqs s req)]) \<or>
                 (\<exists>resp p. ret = (Some resp, p, Some e) \<and> WARC c \<and>
                    trace s1 = trace s @ [EvDo px (reqs s req), EvWriteWARC resp p (Some e), EvBodyClose resp])"
    and "reqs s1 = reqs s" and "next_req s1 = next_req s"
    and "Crawled s1 = Crawled s"
    and "QueueCount s1 = QueueCount s" and "seencheck_db s1 = seencheck_db s"
  using assms
  by (auto simp: exchange_def Let_def Crawled_Incr_def split: sum.splits prod.splits option.splits if_splits)

section \<open>Properties of a whole redirect chain\<close>

lemma events_since_append: "trace s' = trace s @ t \<Longrightarrow> events_since s s' = t"
  by (simp add: events_since_def)

lemma is_Do_simps [simp]:
  "is_Do (EvDo px r)" "\<not> is_Do (EvWriteWARC resp p e)" "\<not> is_Do (EvBodyClose resp)"
  "\<not> is_Do (EvCrawledIncr v)" "\<not> is_Do (EvQueueCountIncr v)" "\<not> is_Do (EvSeen h ty)"
  "\<not> is_Do (EvRemove p)" "\<not> is_Do (EvLogWarning fl m)" "\<not> is_Do (EvLogCrawlSuccess n it)"
  "\<not> is_Do (EvOpen p)" "\<not> is_Do (EvFileClose p)" "\<not> is_Do (EvNewDocumentFromReader p)"
  "\<not> is_Do (EvNewDocumentFromResponse resp)" "\<not> is_Do (EvExtractOutlinks b d)"
  "\<not> is_Do (EvGoQueueOutlinks os it)" "\<not> is_Do (EvExtractAssets b d)"
  by (simp_all add: is_Do_def)

lemma filter_Do_delete_events [simp]: "filter is_Do (delete_events env t p) = []"
  by (simp add: delete_events_def split: option.splits)

lemma sint_succ_below:
  fixes x m :: "64 word"
  assumes lt: "\<not> m \<le>s x"
  shows "sint (x + 1) = sint x + 1"
proof -
  have lt: "sint x < sint m" using assms by (simp add: word_sle_eq not_le)
  have "sint m < 2 ^ 63" using sint_lt [of m] by simp
  moreover have "- (2 ^ 63) \<le> sint x" using sint_ge [of x] by simp
  ultimately have "- (2 ^ 63) \<le> sint x + 1" "sint x + 1 < 2 ^ 63" using lt by arith+
  then have "signed_take_bit 63 (sint x + 1) = sint x + 1"
    by (rule signed_take_bit_int_eq_self)
  then show ?thesis by (simp add: sint_word_add)
qed

lemma Redirect_follow_item [simp]: "Redirect (follow_item env it U) = Redirect it + 1"
  by (simp add: follow_item_def set_Redirect_def)

lemma executeGET_requests_bound:
  "\<exists>t. trace (snd (executeGET env c it req s)) = trace s @ t \<and>
       length (filter is_Do t) \<le> 1 + nat (sint (MaxRedirect c) - sint (Redirect it))"
proof (induction it req s rule: executeGET_cases_induct [where env = env and c = c])
  case (early it req s ret s1)
  from exchange_Inl(1) [OF early] show ?case by auto
next
  case (final it req s resp p s1)
  from exchange_Inr(1) [OF final(1)] show ?case by auto
next
  case (parse_error it req s resp p s1 err)
  from exchange_Inr(1) [OF parse_error(1)] show ?case by auto
next
  case (request_error it req s resp p s1 U err s2)
  from exchange_Inr(1) [OF request_error(1)] NewRequest_fields(1) [OF request_error(4)]
  show ?case by auto
next
  case (follow it req s resp p s1 U newReq s2)
  from follow(2) have nle: "\<not> MaxRedirect c \<le>s Redirect it" by (simp add: follows_def)
  then have lt: "sint (Redirect it) < sint (MaxRedirect c)" by (simp add: word_sle_eq not_le)
  obtain px where t1: "trace s1 = trace s @ EvDo px (reqs s req) #
      (if WARC c then [EvWriteWARC resp p None, EvCrawledIncr 1] else [])"
    using exchange_Inr(1) [OF follow(1)] by blast
  obtain t where t: "trace (snd (executeGET env c (follow_item env it U) newReq (follow_state env c it req p s2)))
        = trace (follow_state env c it req p s2) @ t"
    and n: "length (filter is_Do t) \<le> 1 + nat (sint (MaxRedirect c) - sint (Redirect it + 1))"
    using follow.IH by auto
  have "1 + nat (sint (MaxRedirect c) - sint (Redirect it + 1)) = nat (sint (MaxRedirect c) - sint (Redirect it))"
    using lt sint_succ_below [OF nle] by simp
  with n t t1 NewRequest_fields(1) [OF follow(4)] show ?case by auto
qed

lemma fetch_event_simps [simp]:
  "fetch_event (EvDo px r)" "fetch_event (EvWriteWARC resp p e)" "fetch_event (EvBodyClose resp)"
  "fetch_event (EvCrawledIncr v)" "fetch_event (EvRemove p)" "fetch_event (EvLogWarning fl m)"
  "\<not> fetch_event (EvQueueCountIncr v)" "\<not> fetch_event (EvSeen h ty)"
  "\<not> fetch_event (EvLogCrawlSuccess n it)"
  "\<not> fetch_event (EvOpen p)" "\<not> fetch_event (EvFileClose p)"
  "\<not> fetch_event (EvNewDocumentFromReader p)"
  "\<not> fetch_event (EvNewDocumentFromResponse resp)" "\<not> fetch_event (EvExtractOutlinks b d)"
  "\<not> fetch_event (EvGoQueueOutlinks os it)" "\<not> fetch_event (EvExtractAssets b d)"
  by (simp_all add: fetch_event_def)

lemma fetch_event_delete_events [simp]: "e \<in> set (delete_events env t p) \<Longrightarrow> fetch_event e"
  by (auto simp: delete_events_def split: option.splits if_splits)

lemma executeGET_summary:
  "\<exists>t. trace (snd (executeGET env c it req s)) = trace s @ t \<and>
       (\<forall>e\<in>set t. fetch_event e) \<and>
       QueueCount (snd (executeGET env c it req s)) = QueueCount s \<and>
       seencheck_db (snd (executeGET env c it req s)) = seencheck_db s \<and>
       (\<exists>resp path err. fst (executeGET env c it req s) = Return (resp, path, err) \<and>
          (err = None \<longrightarrow> resp \<noteq> None))"
proof (induction it req s rule: executeGET_cases_induct [where env = env and c = c])
  case (early it req s ret s1)
  from exchange_Inl [OF early] show ?case by auto
next
  case (final it req s resp p s1)
  from exchange_Inr [OF final(1)] show ?case by auto
next
  case (parse_error it req s resp p s1 err)
  from exchange_Inr [OF parse_error(1)] show ?case by auto
next
  case (request_error it req s resp p s1 U err s2)
  from exchange_Inr [OF request_error(1)] NewRequest_fields [OF request_error(4)]
  show ?case by auto
next
  case (follow it req s resp p s1 U newReq s2)
  obtain px where t1: "trace s1 = trace s @ EvDo px (reqs s req) #
      (if WARC c then [EvWriteWARC resp p None, EvCrawledIncr 1] else [])"
    using exchange_Inr(1) [OF follow(1)] by blast
  let ?rs = "executeGET env c (follow_item env it U) newReq (follow_state env c it req p s2)"
  obtain t where t: "trace (snd ?rs) = trace (follow_state env c it req p s2) @ t"
    and f: "\<forall>e\<in>set t. fetch_event e"
    and rest: "QueueCount (snd ?rs) = QueueCount (follow_state env c it req p s2)"
      "seencheck_db (snd ?rs) = seencheck_db (follow_state env c it req p s2)"
      "\<exists>resp path err. fst ?rs = Return (resp, path, err) \<and> (err = None \<longrightarrow> resp \<noteq> None)"
    using follow.IH by blast
  have tr: "trace (snd ?rs) = trace s @ (EvDo px (reqs s req) #
      (if WARC c then [EvWriteWARC resp p None, EvCrawledIncr 1] else []) @
      delete_events env (trace s1) p @ t)"
    using t t1 NewRequest_fields(1) [OF follow(4)] by simp
  have "\<forall>e\<in>set (EvDo px (reqs s req) #
      (if WARC c then [EvWriteWARC resp p None, EvCrawledIncr 1] else []) @
      delete_events env (trace s1) p @ t). fetch_event e"
    using f by auto
  with tr rest exchange_Inr(6,7) [OF follow(1)] NewRequest_fields(3,4) [OF follow(4)]
  show ?case by (intro exI [of _ "EvDo px (reqs s req) #
      (if WARC c then [EvWriteWARC resp p None, EvCrawledIncr 1] else []) @
      delete_events env (trace s1) p @ t"]) simp
qed

subsection \<open>Temporary files along a chain\<close>

lemma live_simps [simp]:
  "live L [] = L" "live L (e # t) = live (live_step L e) t" "live L (a @ b) = live (live L a) b"
  by (simp_all add: live_def)

lemma live_step_simps [simp]:
  "live_step L (EvDo px r) = L"
  "live_step L (EvWriteWARC resp p e) = (if p = [] then L else p # L)"
  "live_step L (EvRemove p) = removeAll p L"
  "live_step L (EvCrawledIncr v) = L" "live_step L (EvBodyClose resp) = L"
  "live_step L (EvLogWarning fl m) = L"
  by (simp_all add: live_step_def)

lemma clean_append: "clean L (a @ b) = (clean L a \<and> clean (live L a) b)"
  by (induction a arbitrary: L) auto

lemma clean_no_Do: "filter is_Do W = [] \<Longrightarrow> clean L W"
  by (induction W arbitrary: L) (auto split: if_splits)

lemma live_delete_events [simp]:
  "live L (delete_events env t p) = (if p = [] then L else removeAll p L)"
  by (simp add: delete_events_def split: option.splits)

lemma clean_between:
  "p \<in> set L \<Longrightarrow> clean L (b @ EvDo px q # c) \<Longrightarrow> EvRemove p \<in> set b"
proof (induction b arbitrary: L)
  case Nil
  then show ?case by auto
next
  case (Cons e b)
  show ?case
  proof (cases "e = EvRemove p")
    case True
    then show ?thesis by simp
  next
    case False
    then have "p \<in> set (live_step L e)"
      using Cons.prems(1) by (cases e) (auto simp: live_step_def)
    moreover have "clean (live_step L e) (b @ EvDo px q # c)"
      using Cons.prems(2) by simp
    ultimately show ?thesis using Cons.IH by simp
  qed
qed

lemma clean_superseded:
  assumes "clean [] (a @ EvWriteWARC r p e # b @ EvDo px q # c)" and "p \<noteq> []"
  shows "EvRemove p \<in> set b"
proof -
  from assms(1) have "clean (live [] a) (EvWriteWARC r p e # b @ EvDo px q # c)"
    by (simp only: clean_append)
  with assms(2) have "clean (p # live [] a) (b @ EvDo px q # c)" by simp
  then show ?thesis by (rule clean_between [rotated]) simp
qed

lemma hop_terminal:
  assumes "filter is_Do W = []" and "path \<noteq> [] \<Longrightarrow> \<exists>r e b. W = EvWriteWARC r path e # b"
  shows "clean [] (EvDo px q # W) \<and>
         (path \<noteq> [] \<longrightarrow> (\<exists>a r e b. EvDo px q # W = a @ EvWriteWARC r path e # b \<and> filter is_Do b = []))"
proof (intro conjI impI)
  show "clean [] (EvDo px q # W)" using assms(1) by (simp add: clean_no_Do)
next
  assume "path \<noteq> []"
  then obtain r e b where W: "W = EvWriteWARC r path e # b" using assms(2) by blast
  with assms(1) have "EvDo px q # W = [EvDo px q] @ EvWriteWARC r path e # b \<and> filter is_Do b = []"
    by simp
  then show "\<exists>a r e b. EvDo px q # W = a @ EvWriteWARC r path e # b \<and> filter is_Do b = []"
    by blast
qed

lemma executeGET_hops:
  "\<exists>t. trace (snd (executeGET env c it req s)) = trace s @ t \<and> clean [] t \<and>
       (\<exists>resp path err. fst (executeGET env c it req s) = Return (resp, path, err) \<and>
          (path \<noteq> [] \<longrightarrow> (\<exists>a r e b. t = a @ EvWriteWARC r path e # b \<and> filter is_Do b = [])))"
proof (induction it req s rule: executeGET_cases_induct [where env = env and c = c])
  case (early it req s ret s1)
  from exchange_Inl(1) [OF early] obtain px e where
    "(\<exists>r. ret = (r, [], Some e) \<and> trace s1 = trace s @ [EvDo px (reqs s req)]) \<or>
     (\<exists>resp p. ret = (Some resp, p, Some e) \<and> WARC c \<and>
        trace s1 = trace s @ [EvDo px (reqs s req), EvWriteWARC resp p (Some e), EvBodyClose resp])"
    by blast
  then show ?case
  proof (elim disjE exE conjE)
    fix r assume "ret = (r, [], Some e)" "trace s1 = trace s @ [EvDo px (reqs s req)]"
    then show ?thesis using hop_terminal [of "[]" "[]" px "reqs s req"] by auto
  next
    fix resp p
    assume "ret = (Some resp, p, Some e)"
      "trace s1 = trace s @ [EvDo px (reqs s req), EvWriteWARC resp p (Some e), EvBodyClose resp]"
    then show ?thesis
      using hop_terminal [of "[EvWriteWARC resp p (Some e), EvBodyClose resp]" p px "reqs s req"]
      by auto
  qed
next
  case (final it req s resp p s1)
  from exchange_Inr(1,2) [OF final(1)] show ?case
    using hop_terminal [of "if WARC c then [EvWriteWARC resp p None, EvCrawledIncr 1] else []" p _ "reqs s req"]
    by (cases "WARC c") auto
next
  case (parse_error it req s resp p s1 err)
  from exchange_Inr(1,2) [OF parse_error(1)] show ?case 
    using hop_terminal [of "if WARC c then [EvWriteWARC resp p None, EvCrawledIncr 1] else []" p _ "reqs s req"]
    by (cases "WARC c") auto
next
  case (request_error it req s resp p s1 U err s2)
  from exchange_Inr(1,2) [OF request_error(1)] NewRequest_fields(1) [OF request_error(4)]
  show ?case
    using hop_terminal [of "if WARC c then [EvWriteWARC resp p None, EvCrawledIncr 1] else []" p _ "reqs s req"]
    by (cases "WARC c") auto
next
  case (follow it req s resp p s1 U newReq s2)
  obtain px where t1: "trace s1 = trace s @ EvDo px (reqs s req) #
      (if WARC c then [EvWriteWARC resp p None, EvCrawledIncr 1] else [])"
    using exchange_Inr(1) [OF follow(1)] by blast
  let ?h = "EvDo px (reqs s req) #
      (if WARC c then [EvWriteWARC resp p None, EvCrawledIncr 1] else []) @
      delete_events env (trace s1) p"
  let ?rs = "executeGET env c (follow_item env it U) newReq (follow_state env c it req p s2)"
  obtain t resp' path err where t: "trace (snd ?rs) = trace (follow_state env c it req p s2) @ t"
    and cl: "clean [] t"
    and res: "fst ?rs = Return (resp', path, err)"
    and last: "path \<noteq> [] \<longrightarrow> (\<exists>a r e b. t = a @ EvWriteWARC r path e # b \<and> filter is_Do b = [])"
    using follow.IH by blast
  have tr: "trace (snd ?rs) = trace s @ (?h @ t)"
    using t t1 NewRequest_fields(1) [OF follow(4)] by simp
  have lh: "live [] ?h = []"
    using exchange_Inr(2) [OF follow(1)] by simp
  have ch: "clean [] ?h"
    by (simp add: clean_no_Do)
  have c2: "clean [] (?h @ t)"
    using lh ch cl by (simp only: clean_append simp_thms)
  have "path \<noteq> [] \<longrightarrow> (\<exists>a r e b. ?h @ t = a @ EvWriteWARC r path e # b \<and> filter is_Do b = [])"
  proof
    assume "path \<noteq> []"
    with last obtain a r e b where "t = a @ EvWriteWARC r path e # b" "filter is_Do b = []" by blast
    then have "?h @ t = (?h @ a) @ EvWriteWARC r path e # b \<and> filter is_Do b = []" by simp
    then show "\<exists>a r e b. ?h @ t = a @ EvWriteWARC r path e # b \<and> filter is_Do b = []" by blast
  qed
  with tr c2 res show ?case by blast
qed

section \<open>The concrete crawl, evaluated\<close>

lemmas demo_defs = demo_url_def demo_client_def demo_env_def demo_crawl_def demo_request_def
  demo_state_def demo_item_def

lemmas model_defs = exchange_def NewRequest_def req_Header_Set_def deleteTempFile_def emit_def
  Crawled_Incr_def logWarning_def Header_Get_def Header_Set_def NewItem_def set_Redirect_def

lemma demo_chain_trace:
  "trace (snd (executeGET demo_env demo_crawl demo_item 0 demo_state)) =
     [EvDo False (demo_request ''a''), EvWriteWARC demo_r301 ''wa'' None, EvCrawledIncr 1,
      EvRemove ''wa'', EvDo False (demo_request ''b''), EvWriteWARC (demo_r200 ''b'') ''wb'' None,
      EvCrawledIncr 1]"
  by (simp add: executeGET.simps demo_defs demo_r301_def demo_r200_def model_defs Let_def word_sle_eq)

lemma demo_chain_result:
  "fst (executeGET demo_env demo_crawl demo_item 0 demo_state) =
     Return (Some (demo_r200 ''b''), ''wb'', None)"
  by (simp add: executeGET.simps demo_defs demo_r301_def demo_r200_def model_defs Let_def word_sle_eq)

section \<open>Assets, documents and the orchestrator\<close>

lemma write_ok_simps [simp]:
  "write_ok (EvWriteWARC resp p e) = (e = None)" "\<not> write_ok (EvDo px r)"
  "\<not> write_ok (EvBodyClose resp)" "\<not> write_ok (EvCrawledIncr v)" "\<not> write_ok (EvRemove p)"
  "\<not> write_ok (EvLogWarning fl m)"
  by (simp_all add: write_ok_def split: option.splits)

lemma write_failed_simps [simp]:
  "write_failed (EvWriteWARC resp p e) = (e \<noteq> None)" "\<not> write_failed (EvDo px r)"
  "\<not> write_failed (EvBodyClose resp)" "\<not> write_failed (EvCrawledIncr v)"
  "\<not> write_failed (EvRemove p)" "\<not> write_failed (EvLogWarning fl m)"
  by (simp_all add: write_failed_def split: option.splits)

lemma is_CrawledIncr_simps [simp]:
  "is_CrawledIncr (EvCrawledIncr v)" "\<not> is_CrawledIncr (EvDo px r)"
  "\<not> is_CrawledIncr (EvBodyClose resp)" "\<not> is_CrawledIncr (EvWriteWARC resp p e)"
  "\<not> is_CrawledIncr (EvRemove p)" "\<not> is_CrawledIncr (EvLogWarning fl m)"
  by (simp_all add: is_CrawledIncr_def)

lemma delete_events_no_archive [simp]:
  "filter write_ok (delete_events env t p) = []" "filter write_failed (delete_events env t p) = []"
  "filter is_CrawledIncr (delete_events env t p) = []"
  "EvWriteWARC r q e \<notin> set (delete_events env t p)"
  by (auto simp: delete_events_def split: option.splits)

lemma archive_ok_prepend:
  assumes "archive_ok t res" and "filter write_failed h = []"
    and "filter is_CrawledIncr h = replicate (length (filter write_ok h)) (EvCrawledIncr 1)"
  shows "archive_ok (h @ t) res"
  unfolding archive_ok_def
proof (intro conjI allI impI)
  fix r p e assume "EvWriteWARC r p (Some e) \<in> set (h @ t)"
  moreover have "EvWriteWARC r p (Some e) \<notin> set h"
    using assms(2) by (auto simp: filter_empty_conv)
  ultimately have in_t: "EvWriteWARC r p (Some e) \<in> set t" by simp
  with assms(1) obtain a where "t = a @ [EvWriteWARC r p (Some e), EvBodyClose r]"
    "filter write_failed a = []" and res: "res = Return (Some r, p, Some e)"
    unfolding archive_ok_def by blast
  then have "h @ t = (h @ a) @ [EvWriteWARC r p (Some e), EvBodyClose r] \<and>
      filter write_failed (h @ a) = []" using assms(2) by simp
  then show "\<exists>a. h @ t = a @ [EvWriteWARC r p (Some e), EvBodyClose r] \<and> filter write_failed a = []"
    by blast
  show "res = Return (Some r, p, Some e)" by (rule res)
next
  show "filter is_CrawledIncr (h @ t) = replicate (length (filter write_ok (h @ t))) (EvCrawledIncr 1)"
    using assms(1,3) by (simp add: archive_ok_def replicate_add)
qed

lemma archive_ok_no_failure:
  assumes "filter write_failed h = []"
    and "filter is_CrawledIncr h = replicate (length (filter write_ok h)) (EvCrawledIncr 1)"
  shows "archive_ok h res"
  using assms by (auto simp: archive_ok_def filter_empty_conv)

lemma executeGET_archive:
  "\<exists>t. trace (snd (executeGET env c it req s)) = trace s @ t \<and>
       archive_ok t (fst (executeGET env c it req s)) \<and>
       Crawled (snd (executeGET env c it req s)) = Crawled s + of_nat (length (filter write_ok t))"
proof (induction it req s rule: executeGET_cases_induct [where env = env and c = c])
  case (early it req s ret s1)
  from exchange_Inl(1) [OF early] obtain px e where
    "(\<exists>r. ret = (r, [], Some e) \<and> trace s1 = trace s @ [EvDo px (reqs s req)]) \<or>
     (\<exists>resp p. ret = (Some resp, p, Some e) \<and> WARC c \<and>
        trace s1 = trace s @ [EvDo px (reqs s req), EvWriteWARC resp p (Some e), EvBodyClose resp])"
    by blast
  then show ?case
  proof (elim disjE exE conjE)
    fix r assume "ret = (r, [], Some e)" "trace s1 = trace s @ [EvDo px (reqs s req)]"
    then show ?thesis using exchange_Inl(4) [OF early]
      by (intro exI [of _ "[EvDo px (reqs s req)]"]) (simp add: archive_ok_no_failure)
  next
    fix resp p
    assume "ret = (Some resp, p, Some e)"
      "trace s1 = trace s @ [EvDo px (reqs s req), EvWriteWARC resp p (Some e), EvBodyClose resp]"
    moreover have "archive_ok [EvDo px (reqs s req), EvWriteWARC resp p (Some e), EvBodyClose resp]
        (Return (Some resp, p, Some e))"
      by (auto simp: archive_ok_def intro: exI [of _ "[EvDo px (reqs s req)]"])
    ultimately show ?thesis using exchange_Inl(4) [OF early]
      by (intro exI [of _ "[EvDo px (reqs s req), EvWriteWARC resp p (Some e), EvBodyClose resp]"]) simp
  qed
next
  case (final it req s resp p s1)
  from exchange_Inr(1,5) [OF final(1)] show ?case
    by (cases "WARC c") (auto simp: archive_ok_no_failure)
next
  case (parse_error it req s resp p s1 err)
  from exchange_Inr(1,5) [OF parse_error(1)] show ?case
    by (cases "WARC c") (auto simp: archive_ok_no_failure)
next
  case (request_error it req s resp p s1 U err s2)
  from exchange_Inr(1,5) [OF request_error(1)] NewRequest_fields(1,2) [OF request_error(4)]
  show ?case
    by (cases "WARC c") (auto simp: archive_ok_no_failure)
next
  case (follow it req s resp p s1 U newReq s2)
  obtain px where t1: "trace s1 = trace s @ EvDo px (reqs s req) #
      (if WARC c then [EvWriteWARC resp p None, EvCrawledIncr 1] else [])"
    using exchange_Inr(1) [OF follow(1)] by blast
  let ?h = "EvDo px (reqs s req) #
      (if WARC c then [EvWriteWARC resp p None, EvCrawledIncr 1] else []) @
      delete_events env (trace s1) p"
  let ?rs = "executeGET env c (follow_item env it U) newReq (follow_state env c it req p s2)"
  obtain t where t: "trace (snd ?rs) = trace (follow_state env c it req p s2) @ t"
    and ok: "archive_ok t (fst ?rs)"
    and cr: "Crawled (snd ?rs) = Crawled (follow_state env c it req p s2) + of_nat (length (filter write_ok t))"
    using follow.IH by blast
  have tr: "trace (snd ?rs) = trace s @ (?h @ t)"
    using t t1 NewRequest_fields(1) [OF follow(4)] by simp
  have ok2: "archive_ok (?h @ t) (fst ?rs)"
    using ok by (rule archive_ok_prepend) simp_all
  have "Crawled (snd ?rs) = Crawled s + of_nat (length (filter write_ok (?h @ t)))"
    using cr exchange_Inr(5) [OF follow(1)] NewRequest_fields(2) [OF follow(4)] by simp
  with tr ok2 show ?case by blast
qed

lemma asset_event_simps [simp]:
  "fetch_event e \<Longrightarrow> asset_event e" "asset_event (EvSeen h ty)"
  "asset_event (EvLogCrawlSuccess n i)" "asset_event (EvQueueCountIncr v)"
  "\<not> asset_event (EvOpen p)" "\<not> asset_event (EvFileClose p)"
  "\<not> asset_event (EvNewDocumentFromReader p)" "\<not> asset_event (EvNewDocumentFromResponse resp)"
  "\<not> asset_event (EvExtractOutlinks b d)" "\<not> asset_event (EvGoQueueOutlinks os i)"
  "\<not> asset_event (EvExtractAssets b d)"
  by (simp_all add: asset_event_def)

lemma outlink_event_simps [simp]:
  "outlink_event (EvExtractOutlinks b d)" "outlink_event (EvGoQueueOutlinks os i)"
  "\<not> outlink_event (EvDo px r)" "\<not> outlink_event (EvWriteWARC resp p e)"
  "\<not> outlink_event (EvBodyClose resp)" "\<not> outlink_event (EvCrawledIncr v)"
  "\<not> outlink_event (EvQueueCountIncr v)" "\<not> outlink_event (EvSeen h ty)"
  "\<not> outlink_event (EvRemove p)" "\<not> outlink_event (EvLogWarning fl m)"
  "\<not> outlink_event (EvLogCrawlSuccess n it)" "\<not> outlink_event (EvOpen p)"
  "\<not> outlink_event (EvFileClose p)" "\<not> outlink_event (EvNewDocumentFromReader p)"
  "\<not> outlink_event (EvNewDocumentFromResponse resp)" "\<not> outlink_event (EvExtractAssets b d)"
  by (simp_all add: outlink_event_def)

lemma asset_event_not_outlink: "asset_event e \<Longrightarrow> \<not> outlink_event e"
  by (cases e) (simp_all add: asset_event_def fetch_event_def)

lemma queue_incrs_simps [simp]:
  "queue_incrs [] = []" "queue_incrs (a @ b) = queue_incrs a @ queue_incrs b"
  "queue_incrs (EvQueueCountIncr v # t) = v # queue_incrs t"
  "queue_incrs (EvSeen h ty # t) = queue_incrs t"
  "queue_incrs (EvLogCrawlSuccess n i # t) = queue_incrs t"
  "queue_incrs (EvLogWarning fl m # t) = queue_incrs t"
  "queue_incrs (EvBodyClose resp # t) = queue_incrs t"
  "queue_incrs (EvExtractAssets bs d # t) = queue_incrs t"
  by (simp_all add: queue_incrs_def)

lemma queue_incrs_fetch: "\<forall>e\<in>set t. fetch_event e \<Longrightarrow> queue_incrs t = []"
proof (induction t)
  case Nil
  show ?case by simp
next
  case (Cons e t)
  then have "fetch_event e" by simp
  then have "queue_incrs [e] = []" by (cases e) (simp_all add: queue_incrs_def)
  with Cons queue_incrs_simps(2) [of "[e]" t] show ?case by simp
qed

lemma queue_incrs_delete_events [simp]: "queue_incrs (delete_events env t p) = []"
  by (rule queue_incrs_fetch) simp

lemma AddCookie_fields [simp]:
  "trace (AddCookie req ck s) = trace s" "QueueCount (AddCookie req ck s) = QueueCount s"
  "seencheck_db (AddCookie req ck s) = seencheck_db s" "Crawled (AddCookie req ck s) = Crawled s"
  by (simp_all add: AddCookie_def Let_def)

lemma fold_AddCookie_fields [simp]:
  "trace (fold (AddCookie req) cks s) = trace s"
  "QueueCount (fold (AddCookie req) cks s) = QueueCount s"
  "seencheck_db (fold (AddCookie req) cks s) = seencheck_db s"
  "Crawled (fold (AddCookie req) cks s) = Crawled s"
  by (induction cks arbitrary: s) simp_all

lemma Seen_fields [simp]:
  "trace (Seen h ty s) = trace s @ [EvSeen h ty]" "QueueCount (Seen h ty s) = QueueCount s"
  "seencheck_db (Seen h ty s) = (seencheck_db s)(h \<mapsto> ty)" "Crawled (Seen h ty s) = Crawled s"
  by (simp_all add: Seen_def)

lemma logCrawlSuccess_fields [simp]:
  "trace (logCrawlSuccess n i s) = trace s @ [EvLogCrawlSuccess n i]"
  "QueueCount (logCrawlSuccess n i s) = QueueCount s"
  "seencheck_db (logCrawlSuccess n i s) = seencheck_db s"
  "Crawled (logCrawlSuccess n i s) = Crawled s"
  by (simp_all add: logCrawlSuccess_def)

lemma logWarning_fields [simp]:
  "trace (logWarning fl m s) = trace s @ [EvLogWarning fl m]"
  "QueueCount (logWarning fl m s) = QueueCount s"
  "seencheck_db (logWarning fl m s) = seencheck_db s"
  "Crawled (logWarning fl m s) = Crawled s"
  by (simp_all add: logWarning_def)

lemma QueueCount_Incr_fields [simp]:
  "trace (QueueCount_Incr v s) = trace s @ [EvQueueCountIncr v]"
  "QueueCount (QueueCount_Incr v s) = QueueCount s + v"
  "seencheck_db (QueueCount_Incr v s) = seencheck_db s"
  by (simp_all add: QueueCount_Incr_def)

text \<open>What a call of captureAsset that passes the seen-set gate does after the gate.\<close>

lemma captureAsset_fetch:
  assumes "\<not> (Seencheck c \<and> IsSeen (FormatUint (Hash it)) s)"
  shows "\<exists>t. trace (snd (captureAsset env c it cks s)) =
            trace s @ (if Seencheck c then [EvSeen (FormatUint (Hash it)) (ItemType it)] else []) @ t \<and>
          (\<forall>e\<in>set t. asset_event e) \<and> queue_incrs t = [] \<and>
          QueueCount (snd (captureAsset env c it cks s)) = QueueCount s \<and>
          seencheck_db (snd (captureAsset env c it cks s)) =
            (if Seencheck c then (seencheck_db s)(FormatUint (Hash it) \<mapsto> ItemType it)
             else seencheck_db s) \<and>
          (ParentItem it \<noteq> None \<longrightarrow> fst (captureAsset env c it cks s) \<noteq> Panic)"
proof -
  let ?h = "FormatUint (Hash it)"
  let ?s0 = "if Seencheck c then Seen ?h (ItemType it) s else s"
  let ?pre = "if Seencheck c then [EvSeen ?h (ItemType it)] else []"
  have s0: "trace ?s0 = trace s @ ?pre" "QueueCount ?s0 = QueueCount s"
    "seencheck_db ?s0 = (if Seencheck c then (seencheck_db s)(?h \<mapsto> ItemType it) else seencheck_db s)"
    by simp_all
  obtain q s1 where nr: "NewRequest env ''GET'' (url_string (URL it)) ?s0 = (q, s1)"
    by (cases "NewRequest env ''GET'' (url_string (URL it)) ?s0")
  note f1 = NewRequest_fields [OF nr]
  show ?thesis
  proof (cases q)
    case (Inl err)
    then have "captureAsset env c it cks s = (Return (Some err), s1)"
      using assms nr by (auto simp: captureAsset_def Let_def)
    with f1 s0 show ?thesis by (intro exI [of _ "[]"]) simp
  next
    case (Inr req)
    show ?thesis
    proof (cases "ParentItem it")
      case None
      then have "captureAsset env c it cks s = (Panic, s1)"
        using assms nr Inr by (auto simp: captureAsset_def Let_def)
      with f1 s0 None show ?thesis by (intro exI [of _ "[]"]) simp
    next
      case (Some par)
      let ?s3 = "fold (AddCookie req) cks (req_Header_Set req ''Referer'' (url_string (URL par)) s1)"
      let ?rs = "executeGET env c it req ?s3"
      obtain t resp path err where t: "trace (snd ?rs) = trace ?s3 @ t"
        and fe: "\<forall>e\<in>set t. fetch_event e"
        and q: "QueueCount (snd ?rs) = QueueCount ?s3"
        and sd: "seencheck_db (snd ?rs) = seencheck_db ?s3"
        and res: "fst ?rs = Return (resp, path, err)" and nn: "err = None \<longrightarrow> resp \<noteq> None"
        using executeGET_summary [of env c it req ?s3] by blast
      have rs: "?rs = (Return (resp, path, err), snd ?rs)"
        using res by (cases ?rs) simp
      have tr3: "trace (snd ?rs) = trace s @ ?pre @ t"
        using t f1(1) s0(1) by simp
      have unfold: "captureAsset env c it cks s =
          (case ?rs of
             (Panic, s4) \<Rightarrow> (Panic, s4)
           | (Return (resp, respPath, Some err), s4) \<Rightarrow>
               (Return (Some err), deleteTempFile env respPath s4)
           | (Return (None, respPath, None), s4) \<Rightarrow> (Panic, s4)
           | (Return (Some resp, respPath, None), s4) \<Rightarrow>
               (Return None,
                emit (EvBodyClose resp)
                  (logCrawlSuccess (StatusCode resp) it (deleteTempFile env respPath s4))))"
        using assms nr Inr Some by (auto simp: captureAsset_def Let_def)
      show ?thesis
      proof (cases err)
        case (Some e)
        then have ca: "captureAsset env c it cks s = (Return (Some e), deleteTempFile env path (snd ?rs))"
          using unfold rs Some by (cases resp) (auto split: prod.splits)
        show ?thesis
          unfolding ca using tr3 fe q sd f1 s0 queue_incrs_fetch [OF fe]
          by (intro exI [of _ "t @ delete_events env (trace (snd ?rs)) path"]) auto
      next
        case None
        with nn obtain r where r: "resp = Some r" by auto
        have ca: "captureAsset env c it cks s =
            (Return None, emit (EvBodyClose r)
               (logCrawlSuccess (StatusCode r) it (deleteTempFile env path (snd ?rs))))"
          using unfold rs None r by (simp split: prod.splits)
        show ?thesis
          unfolding ca using tr3 fe q sd f1 s0 queue_incrs_fetch [OF fe]
          by (intro exI [of _ "t @ delete_events env (trace (snd ?rs)) path @
                [EvLogCrawlSuccess (StatusCode r) it, EvBodyClose r]"]) auto
      qed
    qed
  qed
qed

lemma captureAsset_seen:
  "Seencheck c \<Longrightarrow> IsSeen (FormatUint (Hash it)) s \<Longrightarrow>
   captureAsset env c it cks s = (Return None, s)"
  by (simp add: captureAsset_def)

lemma captureAsset_summary:
  "\<exists>t. trace (snd (captureAsset env c it cks s)) = trace s @ t \<and>
       (\<forall>e\<in>set t. asset_event e) \<and> queue_incrs t = [] \<and>
       QueueCount (snd (captureAsset env c it cks s)) = QueueCount s \<and>
       (ParentItem it \<noteq> None \<longrightarrow> fst (captureAsset env c it cks s) \<noteq> Panic)"
proof (cases "Seencheck c \<and> IsSeen (FormatUint (Hash it)) s")
  case True
  then show ?thesis by (simp add: captureAsset_seen)
next
  case False
  from captureAsset_fetch [OF False, of env cks]
  obtain t where "trace (snd (captureAsset env c it cks s)) =
            trace s @ (if Seencheck c then [EvSeen (FormatUint (Hash it)) (ItemType it)] else []) @ t"
    and "\<forall>e\<in>set t. asset_event e" and "queue_incrs t = []"
    and "QueueCount (snd (captureAsset env c it cks s)) = QueueCount s"
    and "ParentItem it \<noteq> None \<longrightarrow> fst (captureAsset env c it cks s) \<noteq> Panic"
    by blast
  then show ?thesis
    by (intro exI [of _ "(if Seencheck c then [EvSeen (FormatUint (Hash it)) (ItemType it)] else []) @ t"])
       auto
qed

lemma assetLoop_step:
  "\<exists>s3 w. (\<forall>assets. assetLoop env c it resp (asset # assets) s = assetLoop env c it resp assets s3) \<and>
          trace s3 = trace s @ EvQueueCountIncr (- 1) # w \<and> queue_incrs w = [] \<and>
          (\<forall>e\<in>set w. asset_event e) \<and> QueueCount s3 = QueueCount s - 1"
proof (cases "url_string (URL it) = url_string asset")
  case True
  then show ?thesis
    by (intro exI [of _ "QueueCount_Incr (- 1) s"] exI [of _ "[]"]) (simp add: Let_def)
next
  case False
  define s1 where "s1 = QueueCount_Incr (- 1) s"
  define new where "new = NewItem env asset it ''asset'' (Hop it)"
  define ca where "ca = captureAsset env c new (Cookies resp) s1"
  obtain t1 where t1: "trace (snd ca) = trace s1 @ t1" "\<forall>e\<in>set t1. asset_event e"
    "queue_incrs t1 = []" "QueueCount (snd ca) = QueueCount s1" and np: "fst ca \<noteq> Panic"
    using captureAsset_summary [of env c new "Cookies resp" s1]
    unfolding ca_def by (auto simp: new_def NewItem_def)
  from np obtain eo s2 where ca: "ca = (Return eo, s2)"
    by (cases ca, cases "fst ca") auto
  have s1: "trace s1 = trace s @ [EvQueueCountIncr (- 1)]" "QueueCount s1 = QueueCount s - 1"
    by (simp_all add: s1_def)
  show ?thesis
  proof (cases eo)
    case None
    have eq: "\<forall>assets. assetLoop env c it resp (asset # assets) s = assetLoop env c it resp assets s2"
      using False ca None
      by (simp add: Let_def ca_def [symmetric] new_def [symmetric] s1_def [symmetric])
    show ?thesis using eq t1 s1 ca
      by (intro exI [of _ s2] exI [of _ t1]) simp
  next
    case (Some err)
    define s3 where "s3 = logWarning [(''error'', LErr err), (''queued'', LInt (QueueCount s2)),
                           (''crawled'', LInt (Crawled s2)), (''rate'', LInt (Rate s2)),
                           (''active_workers'', LInt (ActiveWorkers s2)),
                           (''parent_hop'', LHop (Hop it)),
                           (''parent_url'', LStr (url_string (URL it))),
                           (''type'', LStr ''asset'')]
                 (url_string asset) s2"
    have eq: "\<forall>assets. assetLoop env c it resp (asset # assets) s = assetLoop env c it resp assets s3"
      using False ca Some
      by (simp add: Let_def ca_def [symmetric] new_def [symmetric] s1_def [symmetric] s3_def)
    obtain m where s3: "trace s3 = trace s2 @ [m]" "fetch_event m" "QueueCount s3 = QueueCount s2"
      by (simp add: s3_def)
    have "queue_incrs (t1 @ [m]) = []"
      using t1(3) queue_incrs_fetch [of "[m]"] s3(2) by simp
    then show ?thesis using eq t1 s1 ca s3
      by (intro exI [of _ s3] exI [of _ "t1 @ [m]"]) auto
  qed
qed

lemma assetLoop_summary:
  "fst (assetLoop env c it resp assets s) = Return () \<and>
   (\<exists>t. trace (snd (assetLoop env c it resp assets s)) = trace s @ t \<and>
        queue_incrs t = replicate (length assets) (- 1) \<and> (\<forall>e\<in>set t. asset_event e)) \<and>
   QueueCount (snd (assetLoop env c it resp assets s)) = QueueCount s - of_nat (length assets)"
proof (induction assets arbitrary: s)
  case Nil
  show ?case by simp
next
  case (Cons asset assets)
  obtain s3 w where eq: "assetLoop env c it resp (asset # assets) s = assetLoop env c it resp assets s3"
    and w: "trace s3 = trace s @ EvQueueCountIncr (- 1) # w" "queue_incrs w = []"
      "\<forall>e\<in>set w. asset_event e" "QueueCount s3 = QueueCount s - 1"
    using assetLoop_step by blast
  from Cons.IH [of s3] obtain t where ih:
    "fst (assetLoop env c it resp assets s3) = Return ()"
    "trace (snd (assetLoop env c it resp assets s3)) = trace s3 @ t"
    "queue_incrs t = replicate (length assets) (- 1)" "\<forall>e\<in>set t. asset_event e"
    "QueueCount (snd (assetLoop env c it resp assets s3)) = QueueCount s3 - of_nat (length assets)"
    by blast
  have "trace (snd (assetLoop env c it resp assets s3)) = trace s @ (EvQueueCountIncr (- 1) # w @ t)"
    using ih(2) w(1) by simp
  moreover have "queue_incrs (EvQueueCountIncr (- 1) # w @ t) = replicate (length (asset # assets)) (- 1)"
    using ih(3) w(2) by simp
  moreover have "\<forall>e\<in>set (EvQueueCountIncr (- 1) # w @ t). asset_event e"
    using ih(4) w(3) by auto
  moreover have "QueueCount (snd (assetLoop env c it resp assets s3)) =
      QueueCount s - of_nat (length (asset # assets))"
    using ih(5) w(4) by simp
  ultimately show ?case unfolding eq using ih(1) by blast
qed

lemma assetLoop_append:
  "assetLoop env c it resp (pre @ post) s =
     assetLoop env c it resp post (snd (assetLoop env c it resp pre s))"
proof (induction pre arbitrary: s)
  case Nil
  show ?case by simp
next
  case (Cons asset pre)
  obtain s3 where eq: "\<And>xs. assetLoop env c it resp (asset # xs) s = assetLoop env c it resp xs s3"
    using assetLoop_step [of env c it resp asset s] by blast
  show ?case using eq [of "pre @ post"] eq [of pre] Cons.IH [of s3] by simp
qed

lemma scrape_event_simps [simp]:
  "scrape_event (EvOpen p)" "scrape_event (EvNewDocumentFromReader p)"
  "scrape_event (EvNewDocumentFromResponse resp)" "scrape_event (EvExtractOutlinks b d)"
  "scrape_event (EvGoQueueOutlinks os i)" "scrape_event (EvExtractAssets b d)"
  "\<not> scrape_event (EvLogCrawlSuccess n i)" "\<not> scrape_event (EvBodyClose resp)"
  "\<not> scrape_event (EvRemove p)" "\<not> scrape_event (EvLogWarning fl m)"
  by (simp_all add: scrape_event_def)

lemma delete_events_kinds:
  "e \<in> set (delete_events env t p) \<Longrightarrow> \<not> scrape_event e"
  "EvLogWarning fl m \<in> set (delete_events env t p) \<Longrightarrow> m = ''Error deleting temporary file''"
  "p \<noteq> [] \<Longrightarrow> EvRemove p \<in> set (delete_events env t p)"
  by (auto simp: delete_events_def split: option.splits if_splits)

lemma Capture_expand_events:
  "fst (Capture_expand env c it resp base doc s) = Return () \<and>
   QueueCount (snd (Capture_expand env c it resp base doc s)) = QueueCount s \<and>
   (\<exists>t. (\<forall>e\<in>set t. asset_event e) \<and>
      trace (snd (Capture_expand env c it resp base doc s)) = trace s @
        (if Hop it < MaxHops c then
           EvExtractOutlinks base doc #
           (case extractOutlinks env base doc of
              Inl err \<Rightarrow> [EvLogWarning [(''error'', LErr err)] (url_string (URL it))]
            | Inr outlinks \<Rightarrow> EvGoQueueOutlinks outlinks it # EvExtractAssets base doc # t)
         else EvExtractAssets base doc # t))"
proof -
  define sg where "sg = (if Hop it < MaxHops c then
      (case extractOutlinks env base doc of
         Inl err \<Rightarrow> s
       | Inr outlinks \<Rightarrow> emit (EvGoQueueOutlinks outlinks it) (emit (EvExtractOutlinks base doc) s))
      else s)"
  define s3 where "s3 = emit (EvExtractAssets base doc) sg"
  define rest where "rest = (case extractAssets env base doc of
       Inl err \<Rightarrow> (Return (), logWarning [(''error'', LErr err)] (url_string (URL it)) s3)
     | Inr assets \<Rightarrow> assetLoop env c it resp assets (QueueCount_Incr (of_nat (length assets)) s3))"
  have rest: "fst rest = Return () \<and> QueueCount (snd rest) = QueueCount s3 \<and>
      (\<exists>t. (\<forall>e\<in>set t. asset_event e) \<and> trace (snd rest) = trace s3 @ t)"
  proof (cases "extractAssets env base doc")
    case (Inl err)
    then show ?thesis
      by (auto simp: rest_def intro!: exI [of _ "[EvLogWarning [(''error'', LErr err)] (url_string (URL it))]"])
  next
    case (Inr assets)
    let ?s4 = "QueueCount_Incr (of_nat (length assets)) s3"
    from assetLoop_summary [of env c it resp assets ?s4] obtain t where
      "fst (assetLoop env c it resp assets ?s4) = Return ()"
      "trace (snd (assetLoop env c it resp assets ?s4)) = trace ?s4 @ t" "\<forall>e\<in>set t. asset_event e"
      "QueueCount (snd (assetLoop env c it resp assets ?s4)) = QueueCount ?s4 - of_nat (length assets)"
      by blast
    then show ?thesis using Inr
      by (auto simp: rest_def intro!: exI [of _ "EvQueueCountIncr (of_nat (length assets)) # t"])
  qed
  show ?thesis
  proof (cases "Hop it < MaxHops c")
    case False
    then have "Capture_expand env c it resp base doc s = rest"
      by (simp add: Capture_expand_def rest_def s3_def sg_def Let_def split: sum.splits)
    with rest False show ?thesis by (auto simp: s3_def sg_def)
  next
    case True
    show ?thesis
    proof (cases "extractOutlinks env base doc")
      case (Inl err)
      with True show ?thesis
        by (auto simp: Capture_expand_def Let_def intro: exI [of _ "[]"])
    next
      case (Inr outlinks)
      with True have "Capture_expand env c it resp base doc s = rest"
        by (simp add: Capture_expand_def rest_def s3_def sg_def Let_def split: sum.splits)
      with rest True Inr show ?thesis by (auto simp: s3_def sg_def)
    qed
  qed
qed

lemma fetch_event_not_outlink: "fetch_event e \<Longrightarrow> \<not> outlink_event e"
  by (cases e) (simp_all add: fetch_event_def)

lemma Capture_fetch_summary:
  "\<exists>t. trace (snd (Capture_fetch env c it s)) = trace s @ t \<and> (\<forall>e\<in>set t. fetch_event e) \<and>
       QueueCount (snd (Capture_fetch env c it s)) = QueueCount s"
proof -
  obtain q s1 where nr: "NewRequest env ''GET'' (url_string (URL it)) s = (q, s1)"
    by (cases "NewRequest env ''GET'' (url_string (URL it)) s")
  note f1 = NewRequest_fields [OF nr]
  show ?thesis
  proof (cases q)
    case (Inl err)
    with nr f1 show ?thesis by (simp add: Capture_fetch_def)
  next
    case (Inr req)
    define ref where "ref = (if 0 < Hop it then
                   (case ParentItem it of
                      None \<Rightarrow> Panic
                    | Some p \<Rightarrow>
                        Return (if 0 < length (url_string (URL p))
                                then req_Header_Set req ''Referer'' (url_string (URL p)) s1
                                else s1))
                 else Return s1)"
    show ?thesis
    proof (cases ref)
      case Panic
      then have "Capture_fetch env c it s = (Panic, s1)"
        using nr Inr by (simp add: Capture_fetch_def ref_def)
      with f1 show ?thesis by simp
    next
      case (Return s2)
      then have s2: "trace s2 = trace s1" "QueueCount s2 = QueueCount s1"
        by (auto simp: ref_def split: if_splits option.splits)
      let ?rs = "executeGET env c it req s2"
      obtain t resp path err where t: "trace (snd ?rs) = trace s2 @ t"
        and fe: "\<forall>e\<in>set t. fetch_event e"
        and qc: "QueueCount (snd ?rs) = QueueCount s2"
        and res: "fst ?rs = Return (resp, path, err)"
        using executeGET_summary [of env c it req s2] by blast
      have rs: "?rs = (Return (resp, path, err), snd ?rs)"
        using res by (cases ?rs) simp
      have unfold: "Capture_fetch env c it s =
          (case ?rs of
                  (Panic, s3) \<Rightarrow> (Panic, s3)
                | (Return (resp, respPath, Some err), s3) \<Rightarrow>
                    (Return None,
                     deleteTempFile env respPath
                       (logWarning [(''error'', LErr err)] (url_string (URL it)) s3))
                | (Return (None, respPath, None), s3) \<Rightarrow> (Panic, s3)
                | (Return (Some resp, respPath, None), s3) \<Rightarrow>
                    (Return (Some (resp, respPath)), s3))"
        using nr Inr Return by (simp add: Capture_fetch_def ref_def [symmetric])
      have "snd (Capture_fetch env c it s) = snd ?rs \<or>
            (\<exists>e. err = Some e \<and> snd (Capture_fetch env c it s) =
               deleteTempFile env path (logWarning [(''error'', LErr e)] (url_string (URL it)) (snd ?rs)))"
        unfolding unfold by (subst (1 2) rs) (simp split: option.splits)
      then show ?thesis
      proof (elim disjE exE conjE)
        assume "snd (Capture_fetch env c it s) = snd ?rs"
        with t fe qc s2 f1 show ?thesis by simp
      next
        fix e assume "snd (Capture_fetch env c it s) =
               deleteTempFile env path (logWarning [(''error'', LErr e)] (url_string (URL it)) (snd ?rs))"
        with t fe qc s2 f1 show ?thesis by auto
      qed
    qed
  qed
qed

lemma Capture_document_summary:
  "\<exists>t. trace (snd (Capture_document env it resp p s)) = trace s @ t \<and>
       (\<forall>e\<in>set t. \<not> outlink_event e) \<and>
       QueueCount (snd (Capture_document env it resp p s)) = QueueCount s"
  by (auto simp: Capture_document_def Let_def fetch_event_not_outlink split: option.splits sum.splits)

lemma Capture_scrape_summary:
  "\<exists>t. trace (snd (Capture_scrape env c it resp p s)) = trace s @ t \<and>
       ((\<exists>e\<in>set t. outlink_event e) \<longrightarrow> Hop it < MaxHops c) \<and>
       QueueCount (snd (Capture_scrape env c it resp p s)) = QueueCount s"
proof -
  let ?s1 = "logCrawlSuccess (StatusCode resp) it s"
  show ?thesis
  proof (cases "Contains (Header_Get (resp_Header resp) ''Content-Type'') ''text/''")
    case False
    then show ?thesis
      by (auto simp: Capture_scrape_def Let_def fetch_event_not_outlink)
  next
    case True
    show ?thesis
    proof (cases "url_Parse env (url_string (Request_URL resp))")
      case (Inl err)
      with True show ?thesis
        by (auto simp: Capture_scrape_def Let_def fetch_event_not_outlink)
    next
      case (Inr base)
      obtain d s2 where cd: "Capture_document env it resp p ?s1 = (d, s2)"
        by (cases "Capture_document env it resp p ?s1")
      obtain t1 where t1: "trace s2 = trace ?s1 @ t1" "\<forall>e\<in>set t1. \<not> outlink_event e"
        "QueueCount s2 = QueueCount ?s1"
        using Capture_document_summary [of env it resp p ?s1] cd by auto
      show ?thesis
      proof (cases d)
        case None
        then have "Capture_scrape env c it resp p s = (Return (), s2)"
          using True Inr cd by (simp add: Capture_scrape_def Let_def)
        with t1 show ?thesis by auto
      next
        case (Some doc)
        then have eq: "Capture_scrape env c it resp p s = Capture_expand env c it resp base doc s2"
          using True Inr cd by (simp add: Capture_scrape_def Let_def)
        from Capture_expand_events [of env c it resp base doc s2] obtain t where
          q: "QueueCount (snd (Capture_expand env c it resp base doc s2)) = QueueCount s2"
          and a: "\<forall>e\<in>set t. asset_event e"
          and tr: "trace (snd (Capture_expand env c it resp base doc s2)) = trace s2 @
            (if Hop it < MaxHops c then
               EvExtractOutlinks base doc #
               (case extractOutlinks env base doc of
                  Inl err \<Rightarrow> [EvLogWarning [(''error'', LErr err)] (url_string (URL it))]
                | Inr outlinks \<Rightarrow> EvGoQueueOutlinks outlinks it # EvExtractAssets base doc # t)
             else EvExtractAssets base doc # t)"
          by blast
        show ?thesis
        proof (cases "Hop it < MaxHops c")
          case True
          then show ?thesis unfolding eq using q t1 tr by auto
        next
          case False
          then show ?thesis unfolding eq using q t1 tr a
            by (auto dest: asset_event_not_outlink)
        qed
      qed
    qed
  qed
qed

lemma Capture_summary:
  "((\<exists>e\<in>set (events_since s (snd (Capture env c it s))). outlink_event e) \<longrightarrow> Hop it < MaxHops c) \<and>
   QueueCount (snd (Capture env c it s)) = QueueCount s"
proof -
  obtain r s1 where cf: "Capture_fetch env c it s = (r, s1)" by (cases "Capture_fetch env c it s")
  obtain t1 where t1: "trace s1 = trace s @ t1" "\<forall>e\<in>set t1. fetch_event e" "QueueCount s1 = QueueCount s"
    using Capture_fetch_summary [of env c it s] cf by auto
  show ?thesis
  proof (cases "\<exists>resp p. r = Return (Some (resp, p))")
    case False
    then have "snd (Capture env c it s) = s1"
      using cf by (auto simp: Capture_def split: outcome.splits option.splits)
    with t1 show ?thesis by (auto simp: events_since_def dest: fetch_event_not_outlink)
  next
    case True
    then obtain resp p where r: "r = Return (Some (resp, p))" by blast
    obtain t2 where t2: "trace (snd (Capture_scrape env c it resp p s1)) = trace s1 @ t2"
      "(\<exists>e\<in>set t2. outlink_event e) \<longrightarrow> Hop it < MaxHops c"
      "QueueCount (snd (Capture_scrape env c it resp p s1)) = QueueCount s1"
      using Capture_scrape_summary [of env c it resp p s1] by blast
    have "snd (Capture env c it s) = emit (EvBodyClose resp) (snd (Capture_scrape env c it resp p s1))"
      using cf r by (simp add: Capture_def split: prod.splits)
    with t1 t2 show ?thesis by (auto simp: events_since_def dest: fetch_event_not_outlink)
  qed
qed

lemma FormatUint_1: "FormatUint 1 = ''1''"
  by (simp add: FormatUint_def)



subsection \<open>The queue counter\<close>

lemma queue_incrs_other [simp]:
  "queue_incrs (EvDo px r # t) = queue_incrs t"
  "queue_incrs (EvWriteWARC resp p e # t) = queue_incrs t"
  "queue_incrs (EvCrawledIncr v # t) = queue_incrs t"
  "queue_incrs (EvRemove p # t) = queue_incrs t"
  "queue_incrs (EvOpen p # t) = queue_incrs t"
  "queue_incrs (EvFileClose p # t) = queue_incrs t"
  "queue_incrs (EvNewDocumentFromReader p # t) = queue_incrs t"
  "queue_incrs (EvNewDocumentFromResponse resp # t) = queue_incrs t"
  "queue_incrs (EvExtractOutlinks bs d # t) = queue_incrs t"
  "queue_incrs (EvGoQueueOutlinks os i # t) = queue_incrs t"
  by (simp_all add: queue_incrs_def)

lemma Capture_expand_queue:
  assumes "Hop it < MaxHops c \<longrightarrow> (\<exists>outlinks. extractOutlinks env base doc = Inr outlinks)"
    and "extractAssets env base doc = Inr assets"
  shows "\<exists>t. trace (snd (Capture_expand env c it resp base doc s)) = trace s @ t \<and>
           queue_incrs t = of_nat (length assets) # replicate (length assets) (- 1)"
proof -
  define sg where "sg = (if Hop it < MaxHops c then
      (case extractOutlinks env base doc of
         Inl err \<Rightarrow> s
       | Inr outlinks \<Rightarrow> emit (EvGoQueueOutlinks outlinks it) (emit (EvExtractOutlinks base doc) s))
      else s)"
  define s4 where "s4 = QueueCount_Incr (of_nat (length assets)) (emit (EvExtractAssets base doc) sg)"
  have eq: "Capture_expand env c it resp base doc s = assetLoop env c it resp assets s4"
    using assms by (auto simp: Capture_expand_def Let_def s4_def sg_def)
  obtain pre where pre: "trace sg = trace s @ pre" "queue_incrs pre = []"
    using assms(1) by (cases "Hop it < MaxHops c") (auto simp: sg_def)
  from assetLoop_summary [of env c it resp assets s4] obtain t where
    t: "trace (snd (assetLoop env c it resp assets s4)) = trace s4 @ t"
    "queue_incrs t = replicate (length assets) (- 1)"
    by blast
  have "trace (snd (assetLoop env c it resp assets s4)) =
      trace s @ (pre @ EvExtractAssets base doc # EvQueueCountIncr (of_nat (length assets)) # t)"
    using t(1) pre(1) by (simp add: s4_def)
  moreover have "queue_incrs (pre @ EvExtractAssets base doc # EvQueueCountIncr (of_nat (length assets)) # t) =
      of_nat (length assets) # replicate (length assets) (- 1)"
    using t(2) pre(2) by simp
  ultimately show ?thesis unfolding eq by blast
qed

lemma Capture_document_queue:
  "\<exists>t. trace (snd (Capture_document env it resp p s)) = trace s @ t \<and> queue_incrs t = []"
  by (auto simp: Capture_document_def Let_def split: option.splits sum.splits)

lemma Capture_queue:
  assumes cf: "Capture_fetch env c it s = (Return (Some (r, respPath)), s1)"
    and ct: "Contains (Header_Get (resp_Header r) ''Content-Type'') ''text/''"
    and up: "url_Parse env (url_string (Request_URL r)) = Inr b"
    and cd: "Capture_document env it r respPath (logCrawlSuccess (StatusCode r) it s1) = (Some d, s2)"
    and gate: "Hop it < MaxHops c \<longrightarrow> (\<exists>outlinks. extractOutlinks env b d = Inr outlinks)"
    and ea: "extractAssets env b d = Inr assets"
  shows "queue_incrs (events_since s (snd (Capture env c it s))) =
           of_nat (length assets) # replicate (length assets) (- 1)"
proof -
  obtain t1 where t1: "trace s1 = trace s @ t1" "\<forall>e\<in>set t1. fetch_event e"
    using Capture_fetch_summary [of env c it s] cf by auto
  obtain t2 where t2: "trace s2 = trace (logCrawlSuccess (StatusCode r) it s1) @ t2" "queue_incrs t2 = []"
    using Capture_document_queue [of env it r respPath "logCrawlSuccess (StatusCode r) it s1"] cd by auto
  obtain t3 where t3: "trace (snd (Capture_expand env c it r b d s2)) = trace s2 @ t3"
    "queue_incrs t3 = of_nat (length assets) # replicate (length assets) (- 1)"
    using Capture_expand_queue [OF gate ea] by blast
  have sc: "Capture_scrape env c it r respPath s1 = Capture_expand env c it r b d s2"
    using ct up cd by (simp add: Capture_scrape_def Let_def)
  have "snd (Capture env c it s) = emit (EvBodyClose r) (snd (Capture_expand env c it r b d s2))"
    using cf sc by (simp add: Capture_def split: prod.splits)
  then have "events_since s (snd (Capture env c it s)) =
      t1 @ EvLogCrawlSuccess (StatusCode r) it # t2 @ t3 @ [EvBodyClose r]"
    using t1(1) t2(1) t3(1) by (simp add: events_since_def)
  then show ?thesis using queue_incrs_fetch [OF t1(2)] t2(2) t3(2) by simp
qed

section \<open>The statements of the specification\<close>

text \<open>
  C1. The request issued for the next hop of a redirect is meant to carry the
  configured \<^verbatim>\<open>User-Agent\<close> and a \<^verbatim>\<open>Referer\<close> with the parent item's URL. Lines 66-67 set
  both headers on \<^verbatim>\<open>req\<close>, the request that was already sent, and not on \<^verbatim>\<open>newReq\<close>. On
  the chain from \<^verbatim>\<open>a\<close> to \<^verbatim>\<open>b\<close> with user agent \<^verbatim>\<open>Zeno\<close>: the second request is issued
  with no header at all, so neither header has the claimed value; at the end the
  first request object (address 0) holds the two headers and the second (address 1)
  none.
\<close>

theorem executeGET_redirect_headers_on_superseded_request:
  "filter is_Do (events_since demo_state (snd (executeGET demo_env demo_crawl demo_item 0 demo_state))) =
     [EvDo False \<lparr>Method = ''GET'', req_URL = demo_url ''a'', req_Header = []\<rparr>,
      EvDo False \<lparr>Method = ''GET'', req_URL = demo_url ''b'', req_Header = []\<rparr>] \<and>
   Header_Get [] ''User-Agent'' \<noteq> UserAgent demo_crawl \<and>
   Header_Get [] ''Referer'' \<noteq> url_string (URL demo_item) \<and>
   req_Header (reqs (snd (executeGET demo_env demo_crawl demo_item 0 demo_state)) 0) =
     [(''Referer'', ''a''), (''User-Agent'', ''Zeno'')] \<and>
   req_Header (reqs (snd (executeGET demo_env demo_crawl demo_item 0 demo_state)) 1) = []"
proof -
  have "events_since demo_state (snd (executeGET demo_env demo_crawl demo_item 0 demo_state)) =
      trace (snd (executeGET demo_env demo_crawl demo_item 0 demo_state))"
    by (simp add: events_since_def demo_state_def)
  then have "filter is_Do (events_since demo_state (snd (executeGET demo_env demo_crawl demo_item 0 demo_state))) =
     [EvDo False (demo_request ''a''), EvDo False (demo_request ''b'')]"
    by (simp add: demo_chain_trace)
  moreover have "req_Header (reqs (snd (executeGET demo_env demo_crawl demo_item 0 demo_state)) 0) =
     [(''Referer'', ''a''), (''User-Agent'', ''Zeno'')]"
    "req_Header (reqs (snd (executeGET demo_env demo_crawl demo_item 0 demo_state)) 1) = []"
    by (simp_all add: executeGET.simps demo_defs model_defs Let_def word_sle_eq)
  ultimately show ?thesis
    by (simp add: demo_request_def Header_Get_def demo_crawl_def demo_item_def demo_url_def)
qed

text \<open>
  C2. The redirect recursion of \<^verbatim>\<open>executeGET\<close> terminates (the function is total: see its
  termination proof), and within the budget: a call issues at most
  \<open>1 + (MaxRedirect - Redirect)\<close> requests, and a second request only when the redirect
  count of the item is strictly below \<open>MaxRedirect\<close>. When the response is a redirect and
  the \<^verbatim>\<open>Location\<close> header equals the URL of the request, or the budget is exhausted, the
  response and its archive path are returned as they are, with a nil error. When the hop
  is followed, the call is the call for the next hop, whose item carries the redirect
  count plus one (without overflow).
\<close>

theorem executeGET_redirect_budget:
  "length (filter is_Do (events_since s (snd (executeGET env c it req s))))
     \<le> 1 + nat (sint (MaxRedirect c) - sint (Redirect it)) \<and>
   (1 < length (filter is_Do (events_since s (snd (executeGET env c it req s))))
      \<longrightarrow> Redirect it <s MaxRedirect c) \<and>
   (\<forall>resp respPath s1.
      exchange env c req s = (Inr (resp, respPath), s1) \<and> isRedirection env (StatusCode resp) \<and>
      (Header_Get (resp_Header resp) ''Location'' = url_string (req_URL (reqs s1 req)) \<or>
       MaxRedirect c \<le>s Redirect it)
      \<longrightarrow> executeGET env c it req s = (Return (Some resp, respPath, None), s1)) \<and>
   (\<forall>resp respPath s1 U newReq s2.
      exchange env c req s = (Inr (resp, respPath), s1) \<and> follows env c it req resp s1 \<and>
      url_Parse env (Header_Get (resp_Header resp) ''Location'') = Inr U \<and>
      NewRequest env ''GET'' (url_string U) s1 = (Inr newReq, s2)
      \<longrightarrow> executeGET env c it req s =
            executeGET env c (follow_item env it U) newReq (follow_state env c it req respPath s2) \<and>
          sint (Redirect (follow_item env it U)) = sint (Redirect it) + 1)"
proof -
  let ?n = "length (filter is_Do (events_since s (snd (executeGET env c it req s))))"
  obtain t where "trace (snd (executeGET env c it req s)) = trace s @ t"
    and "length (filter is_Do t) \<le> 1 + nat (sint (MaxRedirect c) - sint (Redirect it))"
    using executeGET_requests_bound by blast
  then have bound: "?n \<le> 1 + nat (sint (MaxRedirect c) - sint (Redirect it))"
    by (simp add: events_since_append)
  have below: "1 < ?n \<longrightarrow> Redirect it <s MaxRedirect c"
    using bound by (auto simp: word_sless_alt)
  have stop: "executeGET env c it req s = (Return (Some resp, respPath, None), s1)"
    if "exchange env c req s = (Inr (resp, respPath), s1)" "isRedirection env (StatusCode resp)"
      "Header_Get (resp_Header resp) ''Location'' = url_string (req_URL (reqs s1 req)) \<or>
       MaxRedirect c \<le>s Redirect it" for resp respPath s1
    using that by (intro executeGET_final) (auto simp: follows_def)
  have step: "executeGET env c it req s =
            executeGET env c (follow_item env it U) newReq (follow_state env c it req respPath s2) \<and>
          sint (Redirect (follow_item env it U)) = sint (Redirect it) + 1"
    if "exchange env c req s = (Inr (resp, respPath), s1)" "follows env c it req resp s1"
      "url_Parse env (Header_Get (resp_Header resp) ''Location'') = Inr U"
      "NewRequest env ''GET'' (url_string U) s1 = (Inr newReq, s2)" for resp respPath s1 U newReq s2
    using executeGET_follow [OF that] sint_succ_below [of "MaxRedirect c" "Redirect it"] that(2)
    by (simp add: follows_def)
  from bound below stop step show ?thesis by blast
qed

text \<open>
  With a budget of 0 the 301 of page \<^verbatim>\<open>a\<close> is returned with a nil error; with a budget of
  5 it is followed, which makes two requests, and the item of the second hop has the
  redirect count 1.
\<close>

theorem executeGET_redirect_budget_witness:
  "exchange demo_env (demo_crawl\<lparr>MaxRedirect := 0\<rparr>) 0 demo_state =
     (Inr (demo_r301, ''wa''),
      Crawled_Incr 1 (emit (EvWriteWARC demo_r301 ''wa'' None)
        (emit (EvDo False (demo_request ''a'')) demo_state))) \<and>
   isRedirection demo_env (StatusCode demo_r301) \<and>
   MaxRedirect (demo_crawl\<lparr>MaxRedirect := 0\<rparr>) \<le>s Redirect demo_item \<and>
   executeGET demo_env (demo_crawl\<lparr>MaxRedirect := 0\<rparr>) demo_item 0 demo_state =
     (Return (Some demo_r301, ''wa'', None),
      Crawled_Incr 1 (emit (EvWriteWARC demo_r301 ''wa'' None)
        (emit (EvDo False (demo_request ''a'')) demo_state))) \<and>
   1 < length (filter is_Do (events_since demo_state
         (snd (executeGET demo_env demo_crawl demo_item 0 demo_state)))) \<and>
   Redirect demo_item <s MaxRedirect demo_crawl \<and>
   follows demo_env demo_crawl demo_item 0 demo_r301
     (Crawled_Incr 1 (emit (EvWriteWARC demo_r301 ''wa'' None)
        (emit (EvDo False (demo_request ''a'')) demo_state))) \<and>
   sint (Redirect (follow_item demo_env demo_item (demo_url ''b''))) = 1"
proof -
  let ?c = "demo_crawl\<lparr>MaxRedirect := 0\<rparr>"
  let ?s1 = "Crawled_Incr 1 (emit (EvWriteWARC demo_r301 ''wa'' None)
        (emit (EvDo False (demo_request ''a'')) demo_state))"
  have ex: "exchange demo_env ?c 0 demo_state = (Inr (demo_r301, ''wa''), ?s1)"
    by (simp add: demo_defs demo_r301_def exchange_def Let_def)
  have ex5: "exchange demo_env demo_crawl 0 demo_state = (Inr (demo_r301, ''wa''), ?s1)"
    by (simp add: demo_defs demo_r301_def exchange_def Let_def)
  have red: "isRedirection demo_env (StatusCode demo_r301)"
    by (simp add: demo_env_def demo_r301_def)
  have out: "MaxRedirect ?c \<le>s Redirect demo_item"
    by (simp add: demo_crawl_def demo_item_def)
  have two: "1 < length (filter is_Do (events_since demo_state
         (snd (executeGET demo_env demo_crawl demo_item 0 demo_state))))"
    by (simp add: events_since_def demo_chain_trace) (simp add: demo_state_def)
  have fo: "follows demo_env demo_crawl demo_item 0 demo_r301 ?s1"
    by (simp add: follows_def demo_defs demo_r301_def Header_Get_def Crawled_Incr_def emit_def
        word_sle_eq)
  have up: "url_Parse demo_env (Header_Get (resp_Header demo_r301) ''Location'') = Inr (demo_url ''b'')"
    by (simp add: demo_env_def demo_r301_def Header_Get_def)
  obtain s2 where nr: "NewRequest demo_env ''GET'' (url_string (demo_url ''b'')) ?s1 = (Inr 1, s2)"
    by (simp add: NewRequest_def demo_env_def demo_state_def Crawled_Incr_def emit_def)
  have zero: "sint (Redirect demo_item) = 0" by (simp add: demo_item_def)
  note budget0 = executeGET_redirect_budget [where env = demo_env and c = ?c and it = demo_item
      and req = 0 and s = demo_state]
  note budget5 = executeGET_redirect_budget [where env = demo_env and c = demo_crawl
      and it = demo_item and req = 0 and s = demo_state]
  from budget0 ex red out
  have stop: "executeGET demo_env ?c demo_item 0 demo_state = (Return (Some demo_r301, ''wa'', None), ?s1)"
    by blast
  from budget5 two have below: "Redirect demo_item <s MaxRedirect demo_crawl"
    by blast
  from budget5 ex5 fo up nr
  have "sint (Redirect (follow_item demo_env demo_item (demo_url ''b''))) = sint (Redirect demo_item) + 1"
    by blast
  then have next_hop: "sint (Redirect (follow_item demo_env demo_item (demo_url ''b''))) = 1"
    by (simp add: zero)
  from ex red out stop two below fo next_hop show ?thesis by blast
qed

text \<open>
  C3. Along a redirect chain, between the archive write of a hop that returned a
  temporary file and the next request, \<^verbatim>\<open>os.Remove\<close> is called on that file; and the path
  that \<^verbatim>\<open>executeGET\<close> returns, when not empty, is the one of the last hop: it was returned by
  an archive write after which no request was issued.
\<close>

theorem executeGET_superseded_deleted:
  "(\<forall>a r p e b px q d.
      events_since s (snd (executeGET env c it req s)) = a @ EvWriteWARC r p e # b @ EvDo px q # d \<and>
      p \<noteq> [] \<longrightarrow> EvRemove p \<in> set b) \<and>
   (\<exists>resp path err.
      fst (executeGET env c it req s) = Return (resp, path, err) \<and>
      (path \<noteq> [] \<longrightarrow>
         (\<exists>a r e b. events_since s (snd (executeGET env c it req s)) = a @ EvWriteWARC r path e # b \<and>
            filter is_Do b = [])))"
proof -
  obtain t where t: "trace (snd (executeGET env c it req s)) = trace s @ t"
    and cl: "clean [] t"
    and res: "\<exists>resp path err. fst (executeGET env c it req s) = Return (resp, path, err) \<and>
          (path \<noteq> [] \<longrightarrow> (\<exists>a r e b. t = a @ EvWriteWARC r path e # b \<and> filter is_Do b = []))"
    using executeGET_hops by blast
  have ev: "events_since s (snd (executeGET env c it req s)) = t"
    using t by (rule events_since_append)
  show ?thesis
    unfolding ev using cl res clean_superseded by blast
qed

text \<open>
  The chain from \<^verbatim>\<open>a\<close> to \<^verbatim>\<open>b\<close>: \<^verbatim>\<open>wa\<close> is removed before \<^verbatim>\<open>b\<close> is requested, and \<^verbatim>\<open>wb\<close>
  is returned.
\<close>

theorem executeGET_superseded_deleted_witness:
  "events_since demo_state (snd (executeGET demo_env demo_crawl demo_item 0 demo_state)) =
     [EvDo False (demo_request ''a'')] @ EvWriteWARC demo_r301 ''wa'' None #
     [EvCrawledIncr 1, EvRemove ''wa''] @ EvDo False (demo_request ''b'') #
     [EvWriteWARC (demo_r200 ''b'') ''wb'' None, EvCrawledIncr 1] \<and>
   ''wa'' \<noteq> [] \<and> EvRemove ''wa'' \<in> set [EvCrawledIncr 1, EvRemove ''wa''] \<and>
   fst (executeGET demo_env demo_crawl demo_item 0 demo_state) =
     Return (Some (demo_r200 ''b''), ''wb'', None)"
proof -
  have ev: "events_since demo_state (snd (executeGET demo_env demo_crawl demo_item 0 demo_state)) =
     [EvDo False (demo_request ''a'')] @ EvWriteWARC demo_r301 ''wa'' None #
     [EvCrawledIncr 1, EvRemove ''wa''] @ EvDo False (demo_request ''b'') #
     [EvWriteWARC (demo_r200 ''b'') ''wb'' None, EvCrawledIncr 1]"
    by (simp add: events_since_def demo_chain_trace) (simp add: demo_state_def)
  have ne: "''wa'' \<noteq> []" by simp
  from executeGET_superseded_deleted [where env = demo_env and c = demo_crawl and it = demo_item
      and req = 0 and s = demo_state] ev ne
  have "EvRemove ''wa'' \<in> set [EvCrawledIncr 1, EvRemove ''wa'']" by blast
  with ev demo_chain_result show ?thesis by simp
qed

text \<open>
  C4. When the response that Capture fetched has a \<^verbatim>\<open>Content-Type\<close> that does not contain
  \<^verbatim>\<open>text/\<close>, Capture records the success, deletes the temporary file, closes the body and
  returns. After the fetch these are all its events: \<^verbatim>\<open>os.Remove\<close> is called on the path
  when there is one, no document is opened or parsed, no link is extracted, and the only
  warning that can be logged is the one of a failed deletion.
\<close>

theorem Capture_content_type_gate:
  assumes "Capture_fetch env c it s = (Return (Some (resp, respPath)), s1)"
    and "Contains (Header_Get (resp_Header resp) ''Content-Type'') ''text/'' = False"
  shows "Capture env c it s =
           (Return (), emit (EvBodyClose resp)
              (deleteTempFile env respPath (logCrawlSuccess (StatusCode resp) it s1))) \<and>
         events_since s1 (snd (Capture env c it s)) =
           EvLogCrawlSuccess (StatusCode resp) it #
           delete_events env (trace s1 @ [EvLogCrawlSuccess (StatusCode resp) it]) respPath @
           [EvBodyClose resp] \<and>
         (respPath \<noteq> [] \<longrightarrow> EvRemove respPath \<in> set (events_since s1 (snd (Capture env c it s)))) \<and>
         (\<forall>e\<in>set (events_since s1 (snd (Capture env c it s))). \<not> scrape_event e) \<and>
         (\<forall>fl m. EvLogWarning fl m \<in> set (events_since s1 (snd (Capture env c it s)))
            \<longrightarrow> m = ''Error deleting temporary file'')"
proof -
  have cap: "Capture env c it s =
           (Return (), emit (EvBodyClose resp)
              (deleteTempFile env respPath (logCrawlSuccess (StatusCode resp) it s1)))"
    using assms by (simp add: Capture_def Capture_scrape_def Let_def)
  have ev: "events_since s1 (snd (Capture env c it s)) =
           EvLogCrawlSuccess (StatusCode resp) it #
           delete_events env (trace s1 @ [EvLogCrawlSuccess (StatusCode resp) it]) respPath @
           [EvBodyClose resp]"
    unfolding cap by (simp add: events_since_def)
  show ?thesis
    unfolding ev using cap delete_events_kinds by auto
qed

text \<open>
  A page served as \<^verbatim>\<open>image/png\<close>: the observation, the removal of \<^verbatim>\<open>wb\<close>, the closing of
  the body, and nothing else.
\<close>

theorem Capture_content_type_gate_witness:
  "fst (Capture_fetch demo_env demo_crawl_png demo_page demo_state) = Return (Some (demo_png, ''wb'')) \<and>
   Contains (Header_Get (resp_Header demo_png) ''Content-Type'') ''text/'' = False \<and>
   fst (Capture demo_env demo_crawl_png demo_page demo_state) = Return () \<and>
   events_since (snd (Capture_fetch demo_env demo_crawl_png demo_page demo_state))
       (snd (Capture demo_env demo_crawl_png demo_page demo_state)) =
     [EvLogCrawlSuccess 200 demo_page, EvRemove ''wb'', EvBodyClose demo_png]"
proof -
  let ?s1 = "snd (Capture_fetch demo_env demo_crawl_png demo_page demo_state)"
  have f: "fst (Capture_fetch demo_env demo_crawl_png demo_page demo_state) = Return (Some (demo_png, ''wb''))"
    by (simp add: Capture_fetch_def executeGET.simps demo_defs demo_crawl_png_def demo_png_def
        demo_page_def model_defs Let_def)
  then have cf: "Capture_fetch demo_env demo_crawl_png demo_page demo_state =
      (Return (Some (demo_png, ''wb'')), ?s1)"
    by (simp add: prod_eq_iff)
  have ct: "Contains (Header_Get (resp_Header demo_png) ''Content-Type'') ''text/'' = False"
    by (simp add: demo_png_def Header_Get_def)
  have del: "delete_events demo_env t ''wb'' = [EvRemove ''wb'']" for t
    by (simp add: delete_events_def demo_env_def)
  note gate = Capture_content_type_gate [OF cf ct]
  from gate have r: "fst (Capture demo_env demo_crawl_png demo_page demo_state) = Return ()"
    by simp
  from gate [THEN conjunct2, THEN conjunct1]
  have "events_since ?s1 (snd (Capture demo_env demo_crawl_png demo_page demo_state)) =
     [EvLogCrawlSuccess 200 demo_page, EvRemove ''wb'', EvBodyClose demo_png]"
    by (simp add: del) (simp add: demo_png_def)
  with f ct r show ?thesis by blast
qed

text \<open>
  C5. With \<^verbatim>\<open>Seencheck\<close> enabled: when the hash of the item is in the seen-set,
  \<^verbatim>\<open>captureAsset\<close> returns nil and changes nothing (no request object, no event, hence no
  network request); when it is not, the first thing the call does is to mark it seen,
  so that every request it issues comes after, and the hash is in the seen-set when the
  call is over.
\<close>

theorem captureAsset_seencheck:
  "(Seencheck c \<and> IsSeen (FormatUint (Hash it)) s \<longrightarrow>
      captureAsset env c it cookies s = (Return None, s)) \<and>
   (Seencheck c \<and> \<not> IsSeen (FormatUint (Hash it)) s \<longrightarrow>
      (\<exists>t. events_since s (snd (captureAsset env c it cookies s)) =
              EvSeen (FormatUint (Hash it)) (ItemType it) # t) \<and>
      IsSeen (FormatUint (Hash it)) (snd (captureAsset env c it cookies s)))"
proof (intro conjI impI)
  assume "Seencheck c \<and> IsSeen (FormatUint (Hash it)) s"
  then show "captureAsset env c it cookies s = (Return None, s)"
    by (simp add: captureAsset_seen)
next
  assume a: "Seencheck c \<and> \<not> IsSeen (FormatUint (Hash it)) s"
  then have "\<not> (Seencheck c \<and> IsSeen (FormatUint (Hash it)) s)" by simp
  from captureAsset_fetch [OF this, of env cookies] a
  obtain t where t: "trace (snd (captureAsset env c it cookies s)) =
            trace s @ [EvSeen (FormatUint (Hash it)) (ItemType it)] @ t"
    and db: "seencheck_db (snd (captureAsset env c it cookies s)) =
            (seencheck_db s)(FormatUint (Hash it) \<mapsto> ItemType it)"
    by auto
  from t show "\<exists>t. events_since s (snd (captureAsset env c it cookies s)) =
              EvSeen (FormatUint (Hash it)) (ItemType it) # t"
    by (simp add: events_since_def)
  from db show "IsSeen (FormatUint (Hash it)) (snd (captureAsset env c it cookies s))"
    by (simp add: IsSeen_def)
qed

text \<open>
  The asset \<^verbatim>\<open>d\<close>, whose hash is 1, with and without the entry \<^verbatim>\<open>1\<close> in the seen-set.
\<close>

theorem captureAsset_seencheck_witness:
  "Seencheck demo_crawl \<and>
   IsSeen (FormatUint (Hash demo_asset)) (demo_state\<lparr>seencheck_db := [''1'' \<mapsto> ''asset'']\<rparr>) \<and>
   captureAsset demo_env demo_crawl demo_asset [] (demo_state\<lparr>seencheck_db := [''1'' \<mapsto> ''asset'']\<rparr>) =
     (Return None, demo_state\<lparr>seencheck_db := [''1'' \<mapsto> ''asset'']\<rparr>) \<and>
   \<not> IsSeen (FormatUint (Hash demo_asset)) demo_state \<and>
   hd (events_since demo_state (snd (captureAsset demo_env demo_crawl demo_asset [] demo_state))) =
     EvSeen ''1'' ''asset'' \<and>
   IsSeen ''1'' (snd (captureAsset demo_env demo_crawl demo_asset [] demo_state))"
proof -
  let ?s = "demo_state\<lparr>seencheck_db := [''1'' \<mapsto> ''asset'']\<rparr>"
  have sc: "Seencheck demo_crawl" by (simp add: demo_crawl_def)
  have h: "FormatUint (Hash demo_asset) = ''1''" "ItemType demo_asset = ''asset''"
    by (simp_all add: demo_asset_def FormatUint_1)
  have seen: "IsSeen (FormatUint (Hash demo_asset)) ?s" by (simp add: h IsSeen_def)
  have unseen: "\<not> IsSeen (FormatUint (Hash demo_asset)) demo_state"
    by (simp add: h IsSeen_def demo_state_def)
  from captureAsset_seencheck [of demo_crawl demo_asset ?s demo_env "[]"]
    captureAsset_seencheck [of demo_crawl demo_asset demo_state demo_env "[]"]
    sc seen unseen
  show ?thesis by (auto simp: h)
qed

text \<open>
  C6. Wherever an archive write fails in a call of \<^verbatim>\<open>executeGET\<close>, it is the last write
  of the call, the only event after it is the closing of the body of the response it was
  given, and the call returns this response, the path and the error of the write. The
  calls of \<^verbatim>\<open>c.Crawled.Incr(1)\<close> are as many as the successful archive writes, and the
  counter has grown by this number (modulo \<open>2^64\<close>).
\<close>

theorem executeGET_archive_failure:
  "(\<forall>r p e. EvWriteWARC r p (Some e) \<in> set (events_since s (snd (executeGET env c it req s))) \<longrightarrow>
      (\<exists>a. events_since s (snd (executeGET env c it req s)) =
              a @ [EvWriteWARC r p (Some e), EvBodyClose r] \<and> filter write_failed a = []) \<and>
      fst (executeGET env c it req s) = Return (Some r, p, Some e)) \<and>
   filter is_CrawledIncr (events_since s (snd (executeGET env c it req s))) =
     replicate (length (filter write_ok (events_since s (snd (executeGET env c it req s)))))
       (EvCrawledIncr 1) \<and>
   Crawled (snd (executeGET env c it req s)) =
     Crawled s + of_nat (length (filter write_ok (events_since s (snd (executeGET env c it req s)))))"
proof -
  obtain t where t: "trace (snd (executeGET env c it req s)) = trace s @ t"
    and ok: "archive_ok t (fst (executeGET env c it req s))"
    and cr: "Crawled (snd (executeGET env c it req s)) = Crawled s + of_nat (length (filter write_ok t))"
    using executeGET_archive by blast
  have ev: "events_since s (snd (executeGET env c it req s)) = t"
    using t by (rule events_since_append)
  show ?thesis
    unfolding ev using ok cr by (simp add: archive_ok_def)
qed

text \<open>
  With a full disk the write for page \<^verbatim>\<open>a\<close> fails: the body is closed and the error is
  the result.
\<close>

theorem executeGET_archive_failure_witness:
  "EvWriteWARC demo_r301 ''wa'' (Some (Error ''disk full''))
     \<in> set (events_since demo_state (snd (executeGET demo_env_disk_full demo_crawl demo_item 0 demo_state))) \<and>
   fst (executeGET demo_env_disk_full demo_crawl demo_item 0 demo_state) =
     Return (Some demo_r301, ''wa'', Some (Error ''disk full'')) \<and>
   EvBodyClose demo_r301
     \<in> set (events_since demo_state (snd (executeGET demo_env_disk_full demo_crawl demo_item 0 demo_state)))"
proof -
  have tr: "events_since demo_state (snd (executeGET demo_env_disk_full demo_crawl demo_item 0 demo_state)) =
      [EvDo False (demo_request ''a''), EvWriteWARC demo_r301 ''wa'' (Some (Error ''disk full'')),
       EvBodyClose demo_r301]"
    by (simp add: events_since_def executeGET.simps demo_env_disk_full_def demo_defs demo_r301_def
        exchange_def emit_def Let_def)
  then have mem: "EvWriteWARC demo_r301 ''wa'' (Some (Error ''disk full''))
     \<in> set (events_since demo_state (snd (executeGET demo_env_disk_full demo_crawl demo_item 0 demo_state)))"
    by simp
  with executeGET_archive_failure [of demo_state demo_env_disk_full demo_crawl demo_item 0]
  have "(\<exists>a. events_since demo_state (snd (executeGET demo_env_disk_full demo_crawl demo_item 0 demo_state)) =
              a @ [EvWriteWARC demo_r301 ''wa'' (Some (Error ''disk full'')), EvBodyClose demo_r301] \<and>
              filter write_failed a = []) \<and>
      fst (executeGET demo_env_disk_full demo_crawl demo_item 0 demo_state) =
        Return (Some demo_r301, ''wa'', Some (Error ''disk full''))"
    by blast
  with mem show ?thesis by auto
qed



text \<open>
  C8. An asset whose URL string equals the one of the page, at any position of the list
  of assets: its iteration decrements the queue counter and does nothing else. The loop
  over the assets after it starts in the state the loop over the assets before it has
  left, with the decrement added: no request object, no entry in the seen-set, no request,
  no archive.
\<close>

theorem assetLoop_skips_self_reference:
  assumes "url_string asset = url_string (URL it)"
  shows "assetLoop env c it resp (pre @ asset # post) s =
           assetLoop env c it resp post
             (QueueCount_Incr (- 1) (snd (assetLoop env c it resp pre s)))"
proof -
  have "assetLoop env c it resp (asset # post) s' =
        assetLoop env c it resp post (QueueCount_Incr (- 1) s')" for s'
    using assms by (simp add: Let_def)
  then show ?thesis by (simp add: assetLoop_append [of env c it resp pre])
qed

text \<open>
  The page \<^verbatim>\<open>b\<close> with itself as its only asset.
\<close>

theorem assetLoop_skips_self_reference_witness:
  "url_string (demo_url ''b'') = url_string (URL demo_page) \<and>
   assetLoop demo_env demo_crawl demo_page (demo_r200 ''b'') [demo_url ''b''] demo_state =
     (Return (), QueueCount_Incr (- 1) demo_state)"
proof -
  have "url_string (demo_url ''b'') = url_string (URL demo_page)"
    by (simp add: demo_page_def)
  with assetLoop_skips_self_reference [of "demo_url ''b''" demo_page demo_env demo_crawl
      "demo_r200 ''b''" "[]" "[]" demo_state]
  show ?thesis by simp
qed

text \<open>
  C9. When the page was fetched, is text, has been parsed, its hop count is below the
  maximum and the extraction of the outlinks fails, Capture logs the error, closes the
  body and returns: after the parsing its events are the extraction of the outlinks, the
  warning and the closing, so that assets are neither extracted nor captured.
\<close>

theorem Capture_outlink_error_stops:
  assumes "Capture_fetch env c it s = (Return (Some (resp, respPath)), s1)"
    and "Contains (Header_Get (resp_Header resp) ''Content-Type'') ''text/''"
    and "url_Parse env (url_string (Request_URL resp)) = Inr base"
    and "Capture_document env it resp respPath (logCrawlSuccess (StatusCode resp) it s1) = (Some doc, s2)"
    and "Hop it < MaxHops c"
    and "extractOutlinks env base doc = Inl err"
  shows "Capture env c it s =
           (Return (), emit (EvBodyClose resp)
              (logWarning [(''error'', LErr err)] (url_string (URL it))
                 (emit (EvExtractOutlinks base doc) s2))) \<and>
         events_since s2 (snd (Capture env c it s)) =
           [EvExtractOutlinks base doc, EvLogWarning [(''error'', LErr err)] (url_string (URL it)),
            EvBodyClose resp]"
proof -
  have ex: "Capture_expand env c it resp base doc s2 =
      (Return (), logWarning [(''error'', LErr err)] (url_string (URL it))
                 (emit (EvExtractOutlinks base doc) s2))"
    using assms(5,6) by (simp add: Capture_expand_def Let_def)
  have sc: "Capture_scrape env c it resp respPath s1 = Capture_expand env c it resp base doc s2"
    using assms(2,3,4) by (simp add: Capture_scrape_def Let_def)
  have cap: "Capture env c it s =
           (Return (), emit (EvBodyClose resp)
              (logWarning [(''error'', LErr err)] (url_string (URL it))
                 (emit (EvExtractOutlinks base doc) s2)))"
    using assms(1) sc ex by (simp add: Capture_def)
  show ?thesis unfolding cap by (simp add: events_since_def)
qed

text \<open>
  The seed \<^verbatim>\<open>b\<close> with an outlink extractor that fails: the whole trace of Capture.
\<close>

theorem Capture_outlink_error_stops_witness:
  "fst (Capture_fetch demo_env_no_outlinks demo_crawl demo_page demo_state) =
     Return (Some (demo_r200 ''b'', ''wb'')) \<and>
   Contains (Header_Get (resp_Header (demo_r200 ''b'')) ''Content-Type'') ''text/'' \<and>
   Hop demo_page < MaxHops demo_crawl \<and>
   extractOutlinks demo_env_no_outlinks (demo_url ''b'') ''doc'' = Inl (Error ''bad link'') \<and>
   fst (Capture demo_env_no_outlinks demo_crawl demo_page demo_state) = Return () \<and>
   trace (snd (Capture demo_env_no_outlinks demo_crawl demo_page demo_state)) =
     [EvDo False (demo_request ''b''), EvWriteWARC (demo_r200 ''b'') ''wb'' None, EvCrawledIncr 1,
      EvLogCrawlSuccess 200 demo_page,
      EvOpen ''wb'', EvNewDocumentFromReader ''wb'', EvFileClose ''wb'', EvRemove ''wb'',
      EvExtractOutlinks (demo_url ''b'') ''doc'',
      EvLogWarning [(''error'', LErr (Error ''bad link''))] ''b'',
      EvBodyClose (demo_r200 ''b'')]"
proof -
  let ?env = demo_env_no_outlinks
  let ?s1 = "snd (Capture_fetch ?env demo_crawl demo_page demo_state)"
  let ?s2 = "snd (Capture_document ?env demo_page (demo_r200 ''b'') ''wb''
                (logCrawlSuccess (StatusCode (demo_r200 ''b'')) demo_page ?s1))"
  have f: "fst (Capture_fetch ?env demo_crawl demo_page demo_state) = Return (Some (demo_r200 ''b'', ''wb''))"
    by (simp add: Capture_fetch_def executeGET.simps demo_defs demo_env_no_outlinks_def demo_r200_def
        demo_page_def model_defs Let_def)
  then have cf: "Capture_fetch ?env demo_crawl demo_page demo_state =
      (Return (Some (demo_r200 ''b'', ''wb'')), ?s1)"
    by (simp add: prod_eq_iff)
  have ct: "Contains (Header_Get (resp_Header (demo_r200 ''b'')) ''Content-Type'') ''text/''"
    by (simp add: demo_r200_def Header_Get_def)
  have up: "url_Parse ?env (url_string (Request_URL (demo_r200 ''b''))) = Inr (demo_url ''b'')"
    by (simp add: demo_env_no_outlinks_def demo_env_def demo_r200_def demo_url_def)
  have "fst (Capture_document ?env demo_page (demo_r200 ''b'') ''wb''
                (logCrawlSuccess (StatusCode (demo_r200 ''b'')) demo_page ?s1)) = Some ''doc''"
    by (simp add: Capture_document_def demo_env_no_outlinks_def demo_env_def Let_def)
  then have cd: "Capture_document ?env demo_page (demo_r200 ''b'') ''wb''
                (logCrawlSuccess (StatusCode (demo_r200 ''b'')) demo_page ?s1) = (Some ''doc'', ?s2)"
    by (simp add: prod_eq_iff)
  have lt: "Hop demo_page < MaxHops demo_crawl"
    by (simp add: demo_page_def demo_crawl_def)
  have ol: "extractOutlinks ?env (demo_url ''b'') ''doc'' = Inl (Error ''bad link'')"
    by (simp add: demo_env_no_outlinks_def)
  have s1: "trace ?s1 = [EvDo False (demo_request ''b''), EvWriteWARC (demo_r200 ''b'') ''wb'' None,
      EvCrawledIncr 1]"
    by (simp add: Capture_fetch_def executeGET.simps demo_defs demo_env_no_outlinks_def demo_r200_def
        demo_page_def model_defs Let_def)
  have s2: "trace ?s2 = trace ?s1 @ [EvLogCrawlSuccess 200 demo_page,
      EvOpen ''wb'', EvNewDocumentFromReader ''wb'', EvFileClose ''wb'', EvRemove ''wb'']"
    by (simp add: Capture_document_def demo_env_no_outlinks_def demo_env_def Let_def
        delete_events_def demo_r200_def)
  from Capture_outlink_error_stops [OF cf ct up cd lt ol]
  have "Capture ?env demo_crawl demo_page demo_state =
           (Return (), emit (EvBodyClose (demo_r200 ''b''))
              (logWarning [(''error'', LErr (Error ''bad link''))] (url_string (URL demo_page))
                 (emit (EvExtractOutlinks (demo_url ''b'') ''doc'') ?s2)))"
    by blast
  then have "fst (Capture ?env demo_crawl demo_page demo_state) = Return ()"
    and "trace (snd (Capture ?env demo_crawl demo_page demo_state)) =
      trace ?s2 @ [EvExtractOutlinks (demo_url ''b'') ''doc'',
        EvLogWarning [(''error'', LErr (Error ''bad link''))] (url_string (URL demo_page)),
        EvBodyClose (demo_r200 ''b'')]"
    by simp_all
  with f ct lt ol s1 s2 show ?thesis by (simp add: demo_page_def demo_url_def)
qed

text \<open>
  C10. The queue counter in Capture. From line 208 on, when the outlink step does not
  stop the run and the assets are extracted, the amounts added to the counter are the
  number of assets, once, and then \<open>-1\<close> once per asset, whatever happens in the
  iteration (skipped as a self-reference, captured, or failed); the same holds for the
  events of a whole run of Capture that gets that far, and for the loop of lines 229-253
  on any list of assets. In every case the counter ends with the value it had
  (\<^verbatim>\<open>int64\<close> arithmetic).
\<close>

theorem asset_loop_queue_count_balanced:
  "(\<forall>assets.
      (Hop it < MaxHops c \<longrightarrow> (\<exists>outlinks. extractOutlinks env base doc = Inr outlinks)) \<and>
      extractAssets env base doc = Inr assets \<longrightarrow>
      queue_incrs (events_since s0 (snd (Capture_expand env c it resp base doc s0))) =
        of_nat (length assets) # replicate (length assets) (- 1)) \<and>
   QueueCount (snd (Capture_expand env c it resp base doc s0)) = QueueCount s0 \<and>
   (\<forall>r respPath s1 b d s2 assets.
      Capture_fetch env c it s = (Return (Some (r, respPath)), s1) \<and>
      Contains (Header_Get (resp_Header r) ''Content-Type'') ''text/'' \<and>
      url_Parse env (url_string (Request_URL r)) = Inr b \<and>
      Capture_document env it r respPath (logCrawlSuccess (StatusCode r) it s1) = (Some d, s2) \<and>
      (Hop it < MaxHops c \<longrightarrow> (\<exists>outlinks. extractOutlinks env b d = Inr outlinks)) \<and>
      extractAssets env b d = Inr assets \<longrightarrow>
      queue_incrs (events_since s (snd (Capture env c it s))) =
        of_nat (length assets) # replicate (length assets) (- 1)) \<and>
   queue_incrs (events_since s
      (snd (assetLoop env c it resp assets (QueueCount_Incr (of_nat (length assets)) s)))) =
     of_nat (length assets) # replicate (length assets) (- 1) \<and>
   QueueCount (snd (assetLoop env c it resp assets (QueueCount_Incr (of_nat (length assets)) s))) =
     QueueCount s \<and>
   QueueCount (snd (Capture env c it s)) = QueueCount s"
proof -
  have expand: "queue_incrs (events_since s0 (snd (Capture_expand env c it resp base doc s0))) =
        of_nat (length xs) # replicate (length xs) (- 1)"
    if "Hop it < MaxHops c \<longrightarrow> (\<exists>outlinks. extractOutlinks env base doc = Inr outlinks)"
      "extractAssets env base doc = Inr xs" for xs
  proof -
    from Capture_expand_queue [OF that, where resp = resp and s = s0] obtain t where
      "trace (snd (Capture_expand env c it resp base doc s0)) = trace s0 @ t"
      "queue_incrs t = of_nat (length xs) # replicate (length xs) (- 1)"
      by blast
    then show ?thesis by (simp add: events_since_def)
  qed
  have expand_count: "QueueCount (snd (Capture_expand env c it resp base doc s0)) = QueueCount s0"
    using Capture_expand_events [of env c it resp base doc s0] by blast
  have whole: "queue_incrs (events_since s (snd (Capture env c it s))) =
        of_nat (length xs) # replicate (length xs) (- 1)"
    if "Capture_fetch env c it s = (Return (Some (r, respPath)), s1)"
      "Contains (Header_Get (resp_Header r) ''Content-Type'') ''text/''"
      "url_Parse env (url_string (Request_URL r)) = Inr b"
      "Capture_document env it r respPath (logCrawlSuccess (StatusCode r) it s1) = (Some d, s2)"
      "Hop it < MaxHops c \<longrightarrow> (\<exists>outlinks. extractOutlinks env b d = Inr outlinks)"
      "extractAssets env b d = Inr xs" for r respPath s1 b d s2 xs
    using that by (rule Capture_queue)
  let ?s1 = "QueueCount_Incr (of_nat (length assets)) s"
  from assetLoop_summary [of env c it resp assets ?s1] obtain t where
    t: "trace (snd (assetLoop env c it resp assets ?s1)) = trace ?s1 @ t"
    and q: "queue_incrs t = replicate (length assets) (- 1)"
    and n: "QueueCount (snd (assetLoop env c it resp assets ?s1)) = QueueCount ?s1 - of_nat (length assets)"
    by blast
  have "events_since s (snd (assetLoop env c it resp assets ?s1)) =
      EvQueueCountIncr (of_nat (length assets)) # t"
    using t by (simp add: events_since_def)
  with q n have loop: "queue_incrs (events_since s (snd (assetLoop env c it resp assets ?s1))) =
     of_nat (length assets) # replicate (length assets) (- 1)"
    "QueueCount (snd (assetLoop env c it resp assets ?s1)) = QueueCount s"
    by simp_all
  have capture_count: "QueueCount (snd (Capture env c it s)) = QueueCount s"
    using Capture_summary [of s env c it] by blast
  from expand expand_count whole loop capture_count show ?thesis by blast
qed

text \<open>
  The seed \<^verbatim>\<open>b\<close> with the assets \<^verbatim>\<open>b\<close> (itself, skipped) and \<^verbatim>\<open>d\<close> (captured): the counter
  gets \<open>2\<close>, \<open>-1\<close>, \<open>-1\<close>.
\<close>

theorem asset_loop_queue_count_balanced_witness:
  "fst (Capture_fetch demo_env demo_crawl demo_page demo_state) =
     Return (Some (demo_r200 ''b'', ''wb'')) \<and>
   Contains (Header_Get (resp_Header (demo_r200 ''b'')) ''Content-Type'') ''text/'' \<and>
   extractOutlinks demo_env (demo_url ''b'') ''doc'' = Inr [demo_url ''c''] \<and>
   extractAssets demo_env (demo_url ''b'') ''doc'' = Inr [demo_url ''b'', demo_url ''d''] \<and>
   queue_incrs (events_since demo_state (snd (Capture demo_env demo_crawl demo_page demo_state))) =
     [2, - 1, - 1] \<and>
   queue_incrs (events_since demo_state
      (snd (Capture_expand demo_env demo_crawl demo_page (demo_r200 ''b'') (demo_url ''b'') ''doc''
         demo_state))) = [2, - 1, - 1]"
proof -
  let ?s1 = "snd (Capture_fetch demo_env demo_crawl demo_page demo_state)"
  let ?s2 = "snd (Capture_document demo_env demo_page (demo_r200 ''b'') ''wb''
                (logCrawlSuccess (StatusCode (demo_r200 ''b'')) demo_page ?s1))"
  have f: "fst (Capture_fetch demo_env demo_crawl demo_page demo_state) =
      Return (Some (demo_r200 ''b'', ''wb''))"
    by (simp add: Capture_fetch_def executeGET.simps demo_defs demo_r200_def
        demo_page_def model_defs Let_def)
  then have cf: "Capture_fetch demo_env demo_crawl demo_page demo_state =
      (Return (Some (demo_r200 ''b'', ''wb'')), ?s1)"
    by (simp add: prod_eq_iff)
  have ct: "Contains (Header_Get (resp_Header (demo_r200 ''b'')) ''Content-Type'') ''text/''"
    by (simp add: demo_r200_def Header_Get_def)
  have up: "url_Parse demo_env (url_string (Request_URL (demo_r200 ''b''))) = Inr (demo_url ''b'')"
    by (simp add: demo_env_def demo_r200_def demo_url_def)
  have "fst (Capture_document demo_env demo_page (demo_r200 ''b'') ''wb''
                (logCrawlSuccess (StatusCode (demo_r200 ''b'')) demo_page ?s1)) = Some ''doc''"
    by (simp add: Capture_document_def demo_env_def Let_def)
  then have cd: "Capture_document demo_env demo_page (demo_r200 ''b'') ''wb''
                (logCrawlSuccess (StatusCode (demo_r200 ''b'')) demo_page ?s1) = (Some ''doc'', ?s2)"
    by (simp add: prod_eq_iff)
  have ol: "extractOutlinks demo_env (demo_url ''b'') ''doc'' = Inr [demo_url ''c'']"
    by (simp add: demo_env_def)
  then have gate: "Hop demo_page < MaxHops demo_crawl \<longrightarrow>
      (\<exists>outlinks. extractOutlinks demo_env (demo_url ''b'') ''doc'' = Inr outlinks)"
    by simp
  have ea: "extractAssets demo_env (demo_url ''b'') ''doc'' = Inr [demo_url ''b'', demo_url ''d'']"
    by (simp add: demo_env_def)
  note balanced = asset_loop_queue_count_balanced [where env = demo_env and c = demo_crawl
      and it = demo_page and s = demo_state and ?s0.0 = demo_state and resp = "demo_r200 ''b''"
      and base = "demo_url ''b''" and doc = "''doc''" and assets = "[]"]
  from balanced cf ct up cd gate ea
  have whole: "queue_incrs (events_since demo_state (snd (Capture demo_env demo_crawl demo_page demo_state))) =
      of_nat (length [demo_url ''b'', demo_url ''d'']) # replicate (length [demo_url ''b'', demo_url ''d'']) (- 1)"
    by blast
  from balanced gate ea
  have part: "queue_incrs (events_since demo_state
      (snd (Capture_expand demo_env demo_crawl demo_page (demo_r200 ''b'') (demo_url ''b'') ''doc''
         demo_state))) =
      of_nat (length [demo_url ''b'', demo_url ''d'']) # replicate (length [demo_url ''b'', demo_url ''d'']) (- 1)"
    by blast
  have two: "replicate (length [demo_url ''b'', demo_url ''d'']) (- 1 :: 64 word) = [- 1, - 1]"
    "(of_nat (length [demo_url ''b'', demo_url ''d'']) :: 64 word) = 2"
    by (simp_all add: numeral_2_eq_2)
  from f ct ol ea whole part show ?thesis by (simp add: two)
qed

end
